theory Spec2Isabelle
  imports Complex_Main "HOL-Library.AList"
begin

section \<open>Data model\<close>

text \<open>
  The graph types of \<^verbatim>\<open>components/Graph/types.ts\<close> and of the force-graph
  component.  Only the fields that the analysed functions read or write are kept.
  An optional field is an \<open>option\<close>: \<open>None\<close> is the absent property, which
  JavaScript reads as \<^verbatim>\<open>undefined\<close>.  A JavaScript number is modelled as an exact
  real; integers that the code only counts with (lengths, indices, community ids) are
  \<open>nat\<close> or \<open>int\<close>.
\<close>

record Node =
  node_id :: string
  node_group :: int
  node_type :: "string option"
  node_context :: "string list option"
  node_pageRank :: "real option"
  node_size :: "real option"
  node_x :: "real option"
  node_y :: "real option"
  node_fx :: "real option"
  node_fy :: "real option"

text \<open>A link end is \<^verbatim>\<open>string | Node\<close>; every function first resolves it with
  \<^verbatim>\<open>typeof e === 'string' ? e : e.id\<close>.\<close>

datatype endpoint = Ref string | Obj Node

fun endpoint_id :: "endpoint \<Rightarrow> string" where
  "endpoint_id (Ref s) = s"
| "endpoint_id (Obj n) = node_id n"

record Link =
  link_source :: endpoint
  link_target :: endpoint
  link_value :: real
  link_type :: "string option"
  link_context :: "string option"
  link_isInferred :: "bool option"

record GraphData =
  nodes :: "Node list"
  links :: "Link list"

definition sourceId :: "Link \<Rightarrow> string" where
  "sourceId l = endpoint_id (link_source l)"

definition targetId :: "Link \<Rightarrow> string" where
  "targetId l = endpoint_id (link_target l)"

text \<open>Referential integrity (section 3 of the specification): every link end is the id of
  a node of the graph.\<close>

definition links_reference_nodes :: "Node list \<Rightarrow> Link list \<Rightarrow> bool" where
  "links_reference_nodes ns ls =
     list_all (\<lambda>l. sourceId l \<in> node_id ` set ns \<and> targetId l \<in> node_id ` set ns) ls"

section \<open>JavaScript \<^verbatim>\<open>Set\<close> and \<^verbatim>\<open>Map\<close>\<close>

text \<open>
  Both containers iterate in insertion order, and the code depends on that order (first
  member of a component, first best match).  A \<^verbatim>\<open>Set<string>\<close> is a list without
  repetitions in insertion order; a \<^verbatim>\<open>Map<string, V>\<close> is an association list in
  insertion order, written with \<^const>\<open>AList.update\<close> (which replaces the value of a key
  in place and appends a new key at the end, as \<^verbatim>\<open>Map.prototype.set\<close> does) and read
  with \<^const>\<open>map_of\<close>.
\<close>

definition set_add :: "'a \<Rightarrow> 'a list \<Rightarrow> 'a list" where
  "set_add x xs = (if x \<in> set xs then xs else xs @ [x])"

type_synonym adjacency = "(string \<times> string list) list"

text \<open>\<^verbatim>\<open>map.get(k)?.add(v)\<close>: nothing happens when \<open>k\<close> is not a key.\<close>

definition get_add :: "string \<Rightarrow> string \<Rightarrow> adjacency \<Rightarrow> adjacency" where
  "get_add k v m =
     (case map_of m k of None \<Rightarrow> m | Some s \<Rightarrow> AList.update k (set_add v s) m)"

text \<open>\<^verbatim>\<open>map.get(k) || new Set()\<close>, also the members visited by \<^verbatim>\<open>map.get(k)?.forEach\<close>.\<close>

definition neighbors :: "adjacency \<Rightarrow> string \<Rightarrow> string list" where
  "neighbors m k = (case map_of m k of None \<Rightarrow> [] | Some s \<Rightarrow> s)"

section \<open>NeighborIndex: \<^verbatim>\<open>useNeighborMap\<close>\<close>

text \<open>The adjacency map shared by \<^verbatim>\<open>useNeighborMap\<close>, \<^verbatim>\<open>connectIsolatedNodes\<close> and
  \<^verbatim>\<open>detectCommunities\<close>: the three build it with the same two loops.\<close>

definition init_adjacency :: "Node list \<Rightarrow> adjacency" where
  "init_adjacency ns = fold (\<lambda>n m. AList.update (node_id n) [] m) ns []"

definition add_link :: "Link \<Rightarrow> adjacency \<Rightarrow> adjacency" where
  "add_link l m = get_add (targetId l) (sourceId l) (get_add (sourceId l) (targetId l) m)"

definition build_adjacency :: "Node list \<Rightarrow> Link list \<Rightarrow> adjacency" where
  "build_adjacency ns ls = fold add_link ls (init_adjacency ns)"

definition useNeighborMap :: "GraphData \<Rightarrow> adjacency" where
  "useNeighborMap d = build_adjacency (nodes d) (links d)"

section \<open>CurvatureAssigner: \<^verbatim>\<open>calculateLinkCurvature\<close>\<close>

text \<open>
  \<^verbatim>\<open>parallelLinks.indexOf(link)\<close> compares object references, so the links of the
  array are modelled as heap objects: a reference (an address) paired with the link's
  contents.  \<open>indexOf\<close> is the position of the first element with the given reference,
  and \<open>-1\<close> when there is none.
\<close>

type_synonym 'a obj = "nat \<times> 'a"

fun indexOf :: "'a obj list \<Rightarrow> nat \<Rightarrow> int" where
  "indexOf [] r = - 1"
| "indexOf (x # xs) r =
     (if fst x = r then 0
      else (let i = indexOf xs r in if i < 0 then - 1 else i + 1))"

text \<open>The predicate of the \<^verbatim>\<open>filter\<close> call: same source-target pair, or reversed.\<close>

definition isParallel :: "string \<Rightarrow> string \<Rightarrow> Link obj \<Rightarrow> bool" where
  "isParallel s t l \<longleftrightarrow>
     (sourceId (snd l) = s \<and> targetId (snd l) = t) \<or>
     (sourceId (snd l) = t \<and> targetId (snd l) = s)"

definition calculateLinkCurvature :: "Link obj \<Rightarrow> Link obj list \<Rightarrow> real" where
  "calculateLinkCurvature link allLinks =
     (let s = sourceId (snd link); t = targetId (snd link) in
      if s = t then 0.5
      else
        let parallelLinks = filter (isParallel s t) allLinks in
        if length parallelLinks = 1 then 0
        else
          let index = indexOf parallelLinks (fst link);
              curvatureSpacing = 0.5
          in curvatureSpacing * (real_of_int index - (real (length parallelLinks) - 1) / 2))"

text \<open>\<^verbatim>\<open>enrichLinksWithCurvature(links)\<close> without the node list: every link of the array
  gets the curvature computed against the whole array.\<close>

definition enrichLinksWithCurvature :: "Link obj list \<Rightarrow> (Link obj \<times> real) list" where
  "enrichLinksWithCurvature ls = map (\<lambda>l. (l, calculateLinkCurvature l ls)) ls"

section \<open>LayoutSelector: \<^verbatim>\<open>applyAutoLayout\<close>\<close>

text \<open>
  The three layouts that \<^verbatim>\<open>applyAutoLayout\<close> chooses between are parameters of the
  model: \<^verbatim>\<open>applyDagreLayout\<close> delegates to the external \<^verbatim>\<open>dagre\<close> library, and the
  selection does not look at the positions any of them computes.
\<close>

record layouts =
  applyTreeLayout :: "GraphData \<Rightarrow> GraphData"
  applyDagreLayout :: "GraphData \<Rightarrow> GraphData"
  applyCircularLayout :: "GraphData \<Rightarrow> GraphData"

text \<open>\<^verbatim>\<open>links.some(l => sourceId === targetId)\<close>\<close>

definition hasLoops :: "Link list \<Rightarrow> bool" where
  "hasLoops ls = list_ex (\<lambda>l. sourceId l = targetId l) ls"

text \<open>\<^verbatim>\<open>parentCount\<close>: 0 for every node, then one more for the target of every link;
  \<^verbatim>\<open>parentCount.get(targetId) || 0\<close> is 0 for a target that is not yet a key.\<close>

definition parentCount :: "Node list \<Rightarrow> Link list \<Rightarrow> (string \<times> nat) list" where
  "parentCount ns ls =
     fold (\<lambda>l m. AList.update (targetId l)
                    ((case map_of m (targetId l) of None \<Rightarrow> 0 | Some c \<Rightarrow> c) + 1) m)
          ls
          (fold (\<lambda>n m. AList.update (node_id n) 0 m) ns [])"

definition isTree :: "Node list \<Rightarrow> Link list \<Rightarrow> bool" where
  "isTree ns ls = list_all (\<lambda>count. count \<le> 1) (map snd (parentCount ns ls))"

text \<open>\<^verbatim>\<open>avgDegree < 3\<close> with \<^verbatim>\<open>avgDegree = (links.length * 2) / nodes.length\<close>.  With
  no nodes the quotient is \<^verbatim>\<open>NaN\<close> or \<^verbatim>\<open>Infinity\<close> and the comparison is false.\<close>

definition avgDegree_below_3 :: "Node list \<Rightarrow> Link list \<Rightarrow> bool" where
  "avgDegree_below_3 ns ls \<longleftrightarrow>
     length ns \<noteq> 0 \<and> real (length ls * 2) / real (length ns) < 3"

text \<open>The result is paired with the line written by \<^verbatim>\<open>console.log\<close>, which names the
  selected layout.\<close>

definition applyAutoLayout :: "layouts \<Rightarrow> GraphData \<Rightarrow> string \<times> GraphData" where
  "applyAutoLayout L d =
     (if isTree (nodes d) (links d) \<and> \<not> hasLoops (links d) then
        (''Auto-selected tree layout'', applyTreeLayout L d)
      else if avgDegree_below_3 (nodes d) (links d) \<and> length (links d) > 10 then
        (''Auto-selected Dagre layout'', applyDagreLayout L d)
      else if length (nodes d) < 50 \<and> \<not> hasLoops (links d) then
        (''Auto-selected circular layout'', applyCircularLayout L d)
      else
        (''Auto-selected force-directed layout (no pre-processing)'', d))"

text \<open>The number of links that point at a node, as the specification counts it.\<close>

definition incoming :: "Link list \<Rightarrow> string \<Rightarrow> nat" where
  "incoming ls k = length (filter (\<lambda>l. targetId l = k) ls)"

section \<open>ConnectivityRepairer: \<^verbatim>\<open>connectIsolatedNodes\<close>\<close>

text \<open>
  What can go wrong at run time is a value of the result.  \<open>StackExhausted\<close> is the
  \<^verbatim>\<open>RangeError\<close> of a recursion deeper than the call stack: the recursive functions take
  the available depth as their first argument.  \<open>TypeError\<close> is a property read on
  \<^verbatim>\<open>undefined\<close>.  \<open>DivisionByZero\<close> marks a quotient with divisor 0, which JavaScript
  evaluates silently to \<^verbatim>\<open>Infinity\<close> or \<^verbatim>\<open>NaN\<close>; the model makes it observable.
\<close>

datatype fault = StackExhausted | TypeError | DivisionByZero

subsection \<open>\<^verbatim>\<open>calculateNodeSimilarity\<close>\<close>

text \<open>Strings are lists of 8-bit characters; \<^verbatim>\<open>\W\<close> is everything but
  \<^verbatim>\<open>[A-Za-z0-9_]\<close>, and \<^verbatim>\<open>toLowerCase\<close> changes the letters \<^verbatim>\<open>A-Z\<close>.\<close>

definition isWordChar :: "char \<Rightarrow> bool" where
  "isWordChar c \<longleftrightarrow>
     (let n = of_char c :: nat in
      (65 \<le> n \<and> n \<le> 90) \<or> (97 \<le> n \<and> n \<le> 122) \<or> (48 \<le> n \<and> n \<le> 57) \<or> n = 95)"

definition toLowerCase :: "string \<Rightarrow> string" where
  "toLowerCase s =
     map (\<lambda>c. let n = of_char c :: nat in if 65 \<le> n \<and> n \<le> 90 then char_of (n + 32) else c) s"

text \<open>\<^verbatim>\<open>xs.join(' ')\<close>\<close>

fun join_space :: "string list \<Rightarrow> string" where
  "join_space [] = []"
| "join_space [x] = x"
| "join_space (x # y # ys) = x @ '' '' @ join_space (y # ys)"

text \<open>\<^verbatim>\<open>s.split(/\W+/)\<close>: the pieces between maximal runs of non-word characters; the
  empty string gives one empty piece.  The flag says that the previous character was a
  separator, \<open>cur\<close> is the piece being read.\<close>

fun split_nonword :: "bool \<Rightarrow> string \<Rightarrow> string \<Rightarrow> string list" where
  "split_nonword insep cur [] = [cur]"
| "split_nonword insep cur (c # cs) =
     (if isWordChar c then split_nonword False (cur @ [c]) cs
      else if insep then split_nonword True cur cs
      else cur # split_nonword True [] cs)"

text \<open>\<^verbatim>\<open>new Set(xs)\<close>\<close>

definition new_Set :: "'a list \<Rightarrow> 'a list" where
  "new_Set xs = fold set_add xs []"

definition context_words :: "string list \<Rightarrow> string list" where
  "context_words ctx = new_Set (split_nonword False [] (toLowerCase (join_space ctx)))"

definition calculateNodeSimilarity :: "Node \<Rightarrow> Node \<Rightarrow> real" where
  "calculateNodeSimilarity node1 node2 =
     (let similarity = 0;
          similarity = (if node_group node1 = node_group node2 then similarity + 0.5
                        else similarity);
          similarity =
            (case (node_context node1, node_context node2) of
               (Some c1, Some c2) \<Rightarrow>
                 let words1 = context_words c1;
                     words2 = context_words c2;
                     sharedWords = new_Set (filter (\<lambda>x. x \<in> set words2) words1)
                 in similarity
                    + real (length sharedWords) / real (max (length words1) (length words2))
             | _ \<Rightarrow> similarity);
          similarity = (if node_type node1 = node_type node2 then similarity + 0.3
                        else similarity)
      in similarity)"

subsection \<open>Connected components by depth-first search\<close>

text \<open>
  The state of \<^verbatim>\<open>dfs\<close> is the shared set \<^verbatim>\<open>visited\<close> and the component being
  collected.  \<open>dfs_each\<close> is the \<^verbatim>\<open>forEach\<close> over the neighbours of the node.
\<close>

fun dfs :: "nat \<Rightarrow> adjacency \<Rightarrow> string \<Rightarrow> string list \<times> string list
              \<Rightarrow> fault + (string list \<times> string list)"
  and dfs_each :: "nat \<Rightarrow> adjacency \<Rightarrow> string list \<Rightarrow> string list \<times> string list
              \<Rightarrow> fault + (string list \<times> string list)" where
  "dfs 0 adj nodeId st = Inl StackExhausted"
| "dfs (Suc depth) adj nodeId (visited, component) =
     dfs_each depth adj (neighbors adj nodeId)
       (set_add nodeId visited, set_add nodeId component)"
| "dfs_each depth adj [] st = Inr st"
| "dfs_each depth adj (neighbor # rest) (visited, component) =
     (if neighbor \<notin> set visited then
        (case dfs depth adj neighbor (visited, component) of
           Inl e \<Rightarrow> Inl e
         | Inr st' \<Rightarrow> dfs_each depth adj rest st')
      else dfs_each depth adj rest (visited, component))"

text \<open>\<^verbatim>\<open>nodes.forEach\<close>: a new component for every node not yet visited.\<close>

fun find_components :: "nat \<Rightarrow> adjacency \<Rightarrow> Node list \<Rightarrow> string list \<times> string list list
              \<Rightarrow> fault + (string list \<times> string list list)" where
  "find_components depth adj [] st = Inr st"
| "find_components depth adj (node # rest) (visited, components) =
     (if node_id node \<notin> set visited then
        (case dfs depth adj (node_id node) (visited, []) of
           Inl e \<Rightarrow> Inl e
         | Inr (visited', component) \<Rightarrow>
             find_components depth adj rest (visited', components @ [component]))
      else find_components depth adj rest (visited, components))"

subsection \<open>Linking the smaller components to the largest\<close>

text \<open>\<^verbatim>\<open>nodes.find(n => n.id === k)\<close>\<close>

definition find_node :: "Node list \<Rightarrow> string \<Rightarrow> Node option" where
  "find_node ns k = List.find (\<lambda>n. node_id n = k) ns"

text \<open>The \<^verbatim>\<open>forEach\<close> over the main component that keeps the first node with the
  strictly largest similarity, starting from \<^verbatim>\<open>{ nodeId: '', similarity: -1 }\<close>.  A member
  of the main component that is no node makes \<^verbatim>\<open>calculateNodeSimilarity\<close> read a
  property of \<^verbatim>\<open>undefined\<close>.\<close>

fun bestMatch :: "Node list \<Rightarrow> Node \<Rightarrow> string list \<Rightarrow> string \<times> real \<Rightarrow> fault + (string \<times> real)" where
  "bestMatch ns isolatedNode [] best = Inr best"
| "bestMatch ns isolatedNode (mainNodeId # rest) best =
     (case find_node ns mainNodeId of
        None \<Rightarrow> Inl TypeError
      | Some mainNode \<Rightarrow>
          let similarity = calculateNodeSimilarity isolatedNode mainNode in
          bestMatch ns isolatedNode rest
            (if similarity > snd best then (mainNodeId, similarity) else best))"

definition inferred_link :: "string \<Rightarrow> string \<Rightarrow> Link" where
  "inferred_link s t =
     \<lparr>link_source = Ref s, link_target = Ref t, link_value = 1,
      link_type = Some ''inferred_relation'',
      link_context = Some ''Inferred relationship based on domain similarity'',
      link_isInferred = None\<rparr>"

text \<open>The loop \<^verbatim>\<open>for (let i = 1; i < components.length; i++)\<close>, returning the links it
  pushes.  A component is never empty; were it, its first member would be
  \<^verbatim>\<open>undefined\<close>.\<close>

fun connect_components :: "Node list \<Rightarrow> string list \<Rightarrow> string list list \<Rightarrow> fault + Link list" where
  "connect_components ns mainComponent [] = Inr []"
| "connect_components ns mainComponent (component # rest) =
     (case component of
        [] \<Rightarrow> Inl TypeError
      | isolatedNodeId # _ \<Rightarrow>
          (case find_node ns isolatedNodeId of
             None \<Rightarrow> Inl TypeError
           | Some isolatedNode \<Rightarrow>
               (case bestMatch ns isolatedNode mainComponent ([], - 1) of
                  Inl e \<Rightarrow> Inl e
                | Inr best \<Rightarrow>
                    (case connect_components ns mainComponent rest of
                       Inl e \<Rightarrow> Inl e
                     | Inr new \<Rightarrow> Inr (inferred_link isolatedNodeId (fst best) # new)))))"

text \<open>\<^verbatim>\<open>components.sort((a, b) => b.size - a.size)\<close>: a stable sort, largest first.\<close>

definition sort_components :: "string list list \<Rightarrow> string list list" where
  "sort_components cs = sort_key (\<lambda>c. - int (length c)) cs"

definition connectIsolatedNodes :: "nat \<Rightarrow> Node list \<Rightarrow> Link list \<Rightarrow> fault + GraphData" where
  "connectIsolatedNodes depth ns ls =
     (case find_components depth (build_adjacency ns ls) ns ([], []) of
        Inl e \<Rightarrow> Inl e
      | Inr (visited, components) \<Rightarrow>
          if length components \<le> 1 then Inr \<lparr>nodes = ns, links = ls\<rparr>
          else
            (case sort_components components of
               [] \<Rightarrow> Inr \<lparr>nodes = ns, links = ls\<rparr>
             | mainComponent # others \<Rightarrow>
                 (case connect_components ns mainComponent others of
                    Inl e \<Rightarrow> Inl e
                  | Inr new \<Rightarrow> Inr \<lparr>nodes = ns, links = ls @ new\<rparr>)))"

section \<open>PathwayHighlighter: \<^verbatim>\<open>useGraphHighlight\<close>\<close>

text \<open>
  The memoised computation of \<^verbatim>\<open>highlightState\<close>.  The state of the traversal is the set
  \<^verbatim>\<open>visited\<close>, the set \<^verbatim>\<open>highlightedNodes\<close> and the queue of \<^verbatim>\<open>{ id, depth }\<close>
  entries.  \<open>visit_neighbors\<close> is the \<^verbatim>\<open>forEach\<close> over the neighbours of the entry taken
  from the queue, \<open>bfs\<close> the \<^verbatim>\<open>while (queue.length > 0)\<close> loop.
\<close>

type_synonym bfs_state = "string list \<times> string list \<times> (string \<times> nat) list"

fun visit_neighbors :: "nat \<Rightarrow> string list \<Rightarrow> bfs_state \<Rightarrow> bfs_state" where
  "visit_neighbors depth [] st = st"
| "visit_neighbors depth (neighborId # rest) (visited, highlightedNodes, queue) =
     (if neighborId \<notin> set visited then
        visit_neighbors depth rest
          (set_add neighborId visited, set_add neighborId highlightedNodes,
           queue @ [(neighborId, depth + 1)])
      else visit_neighbors depth rest (visited, highlightedNodes, queue))"

text \<open>Every id stored as a neighbour in the map; the loop ends because each round
  either shortens the queue or visits one more of them.\<close>

definition adj_values :: "adjacency \<Rightarrow> string set" where
  "adj_values adj = \<Union> (set ` snd ` set adj)"

function bfs :: "adjacency \<Rightarrow> nat \<Rightarrow> bfs_state \<Rightarrow> bfs_state" where
  "bfs neighborMap maxDepth (visited, highlightedNodes, []) = (visited, highlightedNodes, [])"
| "bfs neighborMap maxDepth (visited, highlightedNodes, (current, depth) # queue) =
     (if depth \<ge> maxDepth then bfs neighborMap maxDepth (visited, highlightedNodes, queue)
      else bfs neighborMap maxDepth
             (visit_neighbors depth (neighbors neighborMap current)
                (visited, highlightedNodes, queue)))"
  by pat_completeness auto
termination
proof (relation "measure (\<lambda>(adj, m, (v, h, q)). 2 * card (adj_values adj - set v) + length q)")
  show "wf (measure (\<lambda>(adj, m, (v, h, q)). 2 * card (adj_values adj - set v) + length q))"
    by simp
next
  fix neighborMap :: adjacency and maxDepth :: nat and visited highlightedNodes :: "string list"
    and current :: string and depth :: nat and queue :: "(string \<times> nat) list"
  show "((neighborMap, maxDepth, visited, highlightedNodes, queue),
         (neighborMap, maxDepth, visited, highlightedNodes, (current, depth) # queue))
        \<in> measure (\<lambda>(adj, m, (v, h, q)). 2 * card (adj_values adj - set v) + length q)"
    by simp
next
  fix neighborMap :: adjacency and maxDepth :: nat and visited highlightedNodes :: "string list"
    and current :: string and depth :: nat and queue :: "(string \<times> nat) list"
  let ?U = "adj_values neighborMap"
  have fin: "finite ?U" by (simp add: adj_values_def)
  have nb: "set (neighbors neighborMap current) \<subseteq> ?U"
  proof (cases "map_of neighborMap current")
    case None
    then show ?thesis by (simp add: neighbors_def)
  next
    case (Some s)
    then have "(current, s) \<in> set neighborMap" by (rule map_of_SomeD)
    then have "set s \<subseteq> ?U" unfolding adj_values_def by force
    then show ?thesis using Some by (simp add: neighbors_def)
  qed
  have step: "set ns \<subseteq> ?U \<Longrightarrow>
      (case visit_neighbors d ns st of (v', h', q') \<Rightarrow> 2 * card (?U - set v') + length q')
        \<le> (case st of (v, h, q) \<Rightarrow> 2 * card (?U - set v) + length q)" for d ns st
  proof (induction d ns st rule: visit_neighbors.induct)
    case (1 depth st)
    then show ?case by (cases st) simp
  next
    case (2 depth neighborId rest visited highlightedNodes queue)
    show ?case
    proof (cases "neighborId \<in> set visited")
      case True
      then show ?thesis using 2 by simp
    next
      case False
      have "neighborId \<in> ?U - set visited" using False "2.prems" by simp
      then have "card (?U - set visited) = Suc (card (?U - set visited - {neighborId}))"
        using fin by (metis card_Suc_Diff1 finite_Diff)
      moreover have "?U - set (set_add neighborId visited) = ?U - set visited - {neighborId}"
        by (auto simp: set_add_def)
      ultimately have "2 * card (?U - set (set_add neighborId visited))
          + length (queue @ [(neighborId, depth + 1)]) \<le> 2 * card (?U - set visited) + length queue"
        by simp
      moreover have "(case visit_neighbors depth rest
            (set_add neighborId visited, set_add neighborId highlightedNodes,
             queue @ [(neighborId, depth + 1)]) of (v', h', q') \<Rightarrow> 2 * card (?U - set v') + length q')
         \<le> 2 * card (?U - set (set_add neighborId visited)) + length (queue @ [(neighborId, depth + 1)])"
        using "2.IH"(1) [OF False] "2.prems" by simp
      ultimately show ?thesis using False by simp
    qed
  qed
  from step [OF nb, of depth "(visited, highlightedNodes, queue)"]
  show "((neighborMap, maxDepth,
          visit_neighbors depth (neighbors neighborMap current) (visited, highlightedNodes, queue)),
         (neighborMap, maxDepth, visited, highlightedNodes, (current, depth) # queue))
        \<in> measure (\<lambda>(adj, m, (v, h, q)). 2 * card (adj_values adj - set v) + length q)"
    by (auto split: prod.splits)
qed

text \<open>The template string \<^verbatim>\<open>`link-${index}`\<close>.\<close>

fun decimal :: "nat \<Rightarrow> string" where
  "decimal n = (if n < 10 then [''0123456789'' ! n]
                else decimal (n div 10) @ [''0123456789'' ! (n mod 10)])"

definition link_name :: "nat \<Rightarrow> string" where
  "link_name index = ''link-'' @ decimal index"

record HighlightState =
  hl_nodes :: "string list"
  hl_links :: "string list"

text \<open>\<^verbatim>\<open>data.links.forEach((link, index) => ...)\<close> with the test of each mode.\<close>

definition highlight_links :: "(Link \<Rightarrow> bool) \<Rightarrow> Link list \<Rightarrow> string list" where
  "highlight_links test ls =
     fold (\<lambda>(link, index) highlightedLinks.
             if test link then set_add (link_name index) highlightedLinks else highlightedLinks)
          (zip ls [0 ..< length ls]) []"

definition highlightState ::
  "GraphData \<Rightarrow> adjacency \<Rightarrow> bool \<Rightarrow> nat \<Rightarrow> Node option \<Rightarrow> HighlightState" where
  "highlightState d neighborMap pathwayMode maxDepth highlightedNode =
     (case highlightedNode of
        None \<Rightarrow> \<lparr>hl_nodes = [], hl_links = []\<rparr>
      | Some node \<Rightarrow>
          if pathwayMode then
            (case bfs neighborMap maxDepth
                    ([node_id node], [node_id node], [(node_id node, 0)]) of
               (visited, highlightedNodes, queue) \<Rightarrow>
                 \<lparr>hl_nodes = highlightedNodes,
                  hl_links = highlight_links
                    (\<lambda>link. sourceId link \<in> set highlightedNodes
                            \<and> targetId link \<in> set highlightedNodes) (links d)\<rparr>)
          else
            (let highlightedNodes = fold set_add (neighbors neighborMap (node_id node)) [node_id node]
             in \<lparr>hl_nodes = highlightedNodes,
                 hl_links = highlight_links
                   (\<lambda>link. sourceId link = node_id node \<or> targetId link = node_id node)
                   (links d)\<rparr>))"

section \<open>CentralityAnalyzer: \<^verbatim>\<open>analyzeGraph\<close>\<close>

text \<open>
  Every quotient of \<^verbatim>\<open>graphAnalytics\<close> goes through \<open>divide\<close>, which reports a zero
  divisor instead of producing \<^verbatim>\<open>Infinity\<close> or \<^verbatim>\<open>NaN\<close>.  The numbers of \<open>analyzeGraph\<close> are
  exact reals; the rounding of IEEE doubles is added to \<open>calculateCentrality\<close> in a second
  definition at the end of this section.
\<close>

definition divide_checked :: "real \<Rightarrow> real \<Rightarrow> fault + real" where
  "divide_checked x y = (if y = 0 then Inl DivisionByZero else Inr (x / y))"

text \<open>\<^verbatim>\<open>xs.forEach\<close> over a state that the callback may fail to produce, and \<^verbatim>\<open>xs.map\<close>
  with a callback that may fail.\<close>

fun forEach :: "('a \<Rightarrow> 's \<Rightarrow> fault + 's) \<Rightarrow> 'a list \<Rightarrow> 's \<Rightarrow> fault + 's" where
  "forEach f [] s = Inr s"
| "forEach f (x # xs) s = (case f x s of Inl e \<Rightarrow> Inl e | Inr s' \<Rightarrow> forEach f xs s')"

fun map_checked :: "('a \<Rightarrow> fault + 'b) \<Rightarrow> 'a list \<Rightarrow> fault + 'b list" where
  "map_checked f [] = Inr []"
| "map_checked f (x # xs) =
     (case f x of
        Inl e \<Rightarrow> Inl e
      | Inr y \<Rightarrow> (case map_checked f xs of Inl e \<Rightarrow> Inl e | Inr ys \<Rightarrow> Inr (y # ys)))"

text \<open>\<^verbatim>\<open>Math.max(...xs)\<close> and \<^verbatim>\<open>Math.min(...xs)\<close> for a non-empty argument list.  With no
  argument they are \<^verbatim>\<open>-Infinity\<close> and \<^verbatim>\<open>Infinity\<close>, which the reals do not have; the code
  uses these values only inside \<^verbatim>\<open>map\<close> callbacks over an array that is then empty.\<close>

definition Math_max :: "real list \<Rightarrow> real" where
  "Math_max xs = fold max (tl xs) (hd xs)"

definition Math_min :: "real list \<Rightarrow> real" where
  "Math_min xs = fold min (tl xs) (hd xs)"

subsection \<open>\<^verbatim>\<open>calculateCentrality\<close>\<close>

text \<open>\<^verbatim>\<open>nodeMap\<close>: the weighted in- and out-degree of every node, as pairs \<open>(in, out)\<close>.\<close>

type_synonym degrees = "(string \<times> real \<times> real) list"

definition add_degrees :: "Link \<Rightarrow> degrees \<Rightarrow> degrees" where
  "add_degrees link m =
     (let m1 = (case map_of m (sourceId link) of
                  None \<Rightarrow> m
                | Some (i, out) \<Rightarrow> AList.update (sourceId link) (i, out + link_value link) m)
      in (case map_of m1 (targetId link) of
            None \<Rightarrow> m1
          | Some (i, out) \<Rightarrow> AList.update (targetId link) (i + link_value link, out) m1))"

definition nodeMap_of :: "Node list \<Rightarrow> Link list \<Rightarrow> degrees" where
  "nodeMap_of ns ls =
     fold add_degrees ls (fold (\<lambda>n m. AList.update (node_id n) (0, 0) m) ns [])"

text \<open>\<^verbatim>\<open>pageRanks.get(id) || 0\<close> and \<^verbatim>\<open>nodeMap.get(id)?.out || 1\<close>.\<close>

definition rank_or_0 :: "(string \<times> real) list \<Rightarrow> string \<Rightarrow> real" where
  "rank_or_0 pageRanks k = (case map_of pageRanks k of None \<Rightarrow> 0 | Some r \<Rightarrow> r)"

definition out_or_1 :: "degrees \<Rightarrow> string \<Rightarrow> real" where
  "out_or_1 nodeMap k =
     (case map_of nodeMap k of None \<Rightarrow> 1 | Some (i, out) \<Rightarrow> if out = 0 then 1 else out)"

definition dampingFactor :: real where
  "dampingFactor = 0.85"

definition iterations :: nat where
  "iterations = 100"

text \<open>The body of \<^verbatim>\<open>nodes.forEach\<close> inside one iteration: the new rank of one node.\<close>

definition new_rank ::
  "Node list \<Rightarrow> Link list \<Rightarrow> degrees \<Rightarrow> (string \<times> real) list \<Rightarrow> Node
     \<Rightarrow> (string \<times> real) list \<Rightarrow> fault + (string \<times> real) list" where
  "new_rank ns ls nodeMap pageRanks node newRanks =
     (let incomingLinks = filter (\<lambda>l. targetId l = node_id node) ls in
      case forEach (\<lambda>link rankSum.
                      case divide_checked (rank_or_0 pageRanks (sourceId link) * link_value link)
                                          (out_or_1 nodeMap (sourceId link)) of
                        Inl e \<Rightarrow> Inl e
                      | Inr share \<Rightarrow> Inr (rankSum + share))
                   incomingLinks 0 of
        Inl e \<Rightarrow> Inl e
      | Inr rankSum \<Rightarrow>
          (case divide_checked (1 - dampingFactor) (real (length ns)) of
             Inl e \<Rightarrow> Inl e
           | Inr base \<Rightarrow>
               Inr (AList.update (node_id node) (base + dampingFactor * rankSum) newRanks)))"

text \<open>The loop \<^verbatim>\<open>for (let i = 0; i < iterations; i++)\<close>, counting the rounds left.\<close>

fun iterate_ranks ::
  "nat \<Rightarrow> Node list \<Rightarrow> Link list \<Rightarrow> degrees \<Rightarrow> (string \<times> real) list
     \<Rightarrow> fault + (string \<times> real) list" where
  "iterate_ranks 0 ns ls nodeMap pageRanks = Inr pageRanks"
| "iterate_ranks (Suc i) ns ls nodeMap pageRanks =
     (case forEach (new_rank ns ls nodeMap pageRanks) ns [] of
        Inl e \<Rightarrow> Inl e
      | Inr newRanks \<Rightarrow> iterate_ranks i ns ls nodeMap newRanks)"

definition initial_ranks :: "Node list \<Rightarrow> fault + (string \<times> real) list" where
  "initial_ranks ns =
     forEach (\<lambda>node pageRanks.
                case divide_checked 1 (real (length ns)) of
                  Inl e \<Rightarrow> Inl e
                | Inr r \<Rightarrow> Inr (AList.update (node_id node) r pageRanks))
             ns []"

definition calculateCentrality :: "Node list \<Rightarrow> Link list \<Rightarrow> fault + Node list" where
  "calculateCentrality ns ls =
     (let nodeMap = nodeMap_of ns ls in
      case initial_ranks ns of
        Inl e \<Rightarrow> Inl e
      | Inr pageRanks0 \<Rightarrow>
          (case iterate_ranks iterations ns ls nodeMap pageRanks0 of
             Inl e \<Rightarrow> Inl e
           | Inr pageRanks \<Rightarrow>
               let maxRank = Math_max (map snd pageRanks) in
               map_checked
                 (\<lambda>node. case divide_checked (rank_or_0 pageRanks (node_id node)) maxRank of
                            Inl e \<Rightarrow> Inl e
                          | Inr r \<Rightarrow> Inr (node\<lparr>node_pageRank := Some r,
                                                 node_size := Some (5 + r * 25)\<rparr>))
                 ns))"

subsection \<open>\<^verbatim>\<open>calculateLinkWeights\<close>\<close>

definition calculateLinkWeights :: "Link list \<Rightarrow> fault + Link list" where
  "calculateLinkWeights ls =
     (let maxWeight = Math_max (map link_value ls);
          minWeight = Math_min (map link_value ls);
          weightRange = maxWeight - minWeight
      in map_checked
           (\<lambda>link. if weightRange > 0 then
                      (case divide_checked (link_value link - minWeight) weightRange of
                         Inl e \<Rightarrow> Inl e
                       | Inr q \<Rightarrow> Inr (link\<lparr>link_value := 1 + q * 4\<rparr>))
                    else Inr (link\<lparr>link_value := 1\<rparr>))
           ls)"

subsection \<open>\<^verbatim>\<open>detectCommunities\<close>\<close>

text \<open>The state of \<^verbatim>\<open>assignCommunity\<close> is the set \<^verbatim>\<open>visited\<close> and the record
  \<^verbatim>\<open>communities\<close>; \<open>assign_each\<close> is the \<^verbatim>\<open>forEach\<close> over the neighbours.\<close>

type_synonym communities = "(string \<times> int) list"

fun assignCommunity :: "nat \<Rightarrow> adjacency \<Rightarrow> string \<Rightarrow> int \<Rightarrow> string list \<times> communities
              \<Rightarrow> fault + (string list \<times> communities)"
  and assign_each :: "nat \<Rightarrow> adjacency \<Rightarrow> string list \<Rightarrow> int \<Rightarrow> string list \<times> communities
              \<Rightarrow> fault + (string list \<times> communities)" where
  "assignCommunity 0 adj nodeId communityId st = Inl StackExhausted"
| "assignCommunity (Suc depth) adj nodeId communityId (visited, communities) =
     (if nodeId \<in> set visited then Inr (visited, communities)
      else assign_each depth adj (neighbors adj nodeId) communityId
             (set_add nodeId visited, AList.update nodeId communityId communities))"
| "assign_each depth adj [] communityId st = Inr st"
| "assign_each depth adj (neighbor # rest) communityId (visited, communities) =
     (if neighbor \<notin> set visited then
        (case assignCommunity depth adj neighbor communityId (visited, communities) of
           Inl e \<Rightarrow> Inl e
         | Inr st' \<Rightarrow> assign_each depth adj rest communityId st')
      else assign_each depth adj rest communityId (visited, communities))"

text \<open>\<^verbatim>\<open>nodes.forEach\<close> with the counter \<^verbatim>\<open>communityId++\<close>.\<close>

fun assign_all :: "nat \<Rightarrow> adjacency \<Rightarrow> Node list \<Rightarrow> int \<Rightarrow> string list \<times> communities
              \<Rightarrow> fault + communities" where
  "assign_all depth adj [] communityId (visited, communities) = Inr communities"
| "assign_all depth adj (node # rest) communityId (visited, communities) =
     (if node_id node \<notin> set visited then
        (case assignCommunity depth adj (node_id node) communityId (visited, communities) of
           Inl e \<Rightarrow> Inl e
         | Inr st' \<Rightarrow> assign_all depth adj rest (communityId + 1) st')
      else assign_all depth adj rest communityId (visited, communities))"

definition detectCommunities :: "nat \<Rightarrow> Node list \<Rightarrow> Link list \<Rightarrow> fault + communities" where
  "detectCommunities depth ns ls = assign_all depth (build_adjacency ns ls) ns 0 ([], [])"

subsection \<open>\<^verbatim>\<open>analyzeGraph\<close>\<close>

text \<open>\<^verbatim>\<open>communities[node.id] || node.group\<close>: the prior group when the node has no
  community or when its community id is 0.\<close>

definition community_or_group :: "communities \<Rightarrow> Node \<Rightarrow> int" where
  "community_or_group communities node =
     (case map_of communities (node_id node) of
        None \<Rightarrow> node_group node
      | Some c \<Rightarrow> if c = 0 then node_group node else c)"

definition analyzeGraph :: "nat \<Rightarrow> GraphData \<Rightarrow> fault + GraphData" where
  "analyzeGraph depth d =
     (case calculateCentrality (nodes d) (links d) of
        Inl e \<Rightarrow> Inl e
      | Inr ns \<Rightarrow>
          (case calculateLinkWeights (links d) of
             Inl e \<Rightarrow> Inl e
           | Inr ls \<Rightarrow>
               (case detectCommunities depth ns ls of
                  Inl e \<Rightarrow> Inl e
                | Inr communities \<Rightarrow>
                    Inr \<lparr>nodes = map (\<lambda>node. node\<lparr>node_group := community_or_group communities node\<rparr>) ns,
                         links = ls\<rparr>)))"

subsection \<open>Rounding to double precision\<close>

text \<open>A JavaScript number is an IEEE 754 double, and every arithmetic operation returns
  the exact result rounded to the nearest double, a tie going to the double with the even
  significand.  \<open>exponent x\<close> is the binary exponent of \<open>x\<close>, so that the doubles around
  \<open>x\<close> are the multiples of \<open>2 powi (exponent x - 52)\<close>: 53 significant bits.  The range
  of the exponent is not bounded: overflow to \<^verbatim>\<open>Infinity\<close> and the subnormal numbers are
  not modelled.\<close>

definition exponent :: "real \<Rightarrow> int" where
  "exponent x = \<lfloor>log 2 \<bar>x\<bar>\<rfloor>"

definition round_half_even :: "real \<Rightarrow> int" where
  "round_half_even q =
     (let f = \<lfloor>q\<rfloor> in
      if q - of_int f < 1 / 2 then f
      else if 1 / 2 < q - of_int f then f + 1
      else if even f then f else f + 1)"

definition round_double :: "real \<Rightarrow> real" where
  "round_double x =
     (if x = 0 then 0
      else of_int (round_half_even (x / 2 powi (exponent x - 52))) * 2 powi (exponent x - 52))"

subsection \<open>\<^verbatim>\<open>calculateCentrality\<close> with every operation rounded\<close>









section \<open>Example data\<close>

definition plain_node :: "string \<Rightarrow> Node" where
  "plain_node i = \<lparr>node_id = i, node_group = 1, node_type = None, node_context = None,
                   node_pageRank = None, node_size = None,
                   node_x = None, node_y = None, node_fx = None, node_fy = None\<rparr>"

definition plain_link :: "string \<Rightarrow> string \<Rightarrow> Link" where
  "plain_link s t = \<lparr>link_source = Ref s, link_target = Ref t, link_value = 1,
                     link_type = None, link_context = None, link_isInferred = None\<rparr>"

definition star :: GraphData where
  "star = \<lparr>nodes = [plain_node ''Z'', plain_node ''L1'', plain_node ''L2'', plain_node ''L3'',
                     plain_node ''L4'', plain_node ''L5''],
            links = [plain_link ''Z'' ''L1'', plain_link ''Z'' ''L2'', plain_link ''Z'' ''L3'',
                     plain_link ''Z'' ''L4'', plain_link ''Z'' ''L5'']\<rparr>"

definition curvature_example :: "Link obj list" where
  "curvature_example =
     [(10, plain_link ''X'' ''X''), (11, plain_link ''X'' ''Y''), (12, plain_link ''Y'' ''X''),
      (13, plain_link ''X'' ''Y''), (14, plain_link ''A'' ''B'')]"

definition ring3 :: GraphData where
  "ring3 = \<lparr>nodes = [plain_node ''A'', plain_node ''B'', plain_node ''C''],
             links = [plain_link ''A'' ''B'', plain_link ''B'' ''C'', plain_link ''C'' ''A'',
                      plain_link ''A'' ''C'']\<rparr>"

definition two_pairs :: GraphData where
  "two_pairs = \<lparr>nodes = [plain_node ''A'', plain_node ''B'', plain_node ''C'', plain_node ''D''],
                 links = [plain_link ''A'' ''B'', plain_link ''C'' ''D'']\<rparr>"

definition three_isolated :: "Node list" where
  "three_isolated = [plain_node ''X'', plain_node ''Y'', plain_node ''Z'']"

definition chain :: GraphData where
  "chain = \<lparr>nodes = [plain_node ''A'', plain_node ''B'', plain_node ''C'', plain_node ''D'',
                      plain_node ''E''],
             links = [plain_link ''A'' ''B'', plain_link ''B'' ''C'', plain_link ''C'' ''D'',
                      plain_link ''D'' ''E'']\<rparr>"

definition grouped :: GraphData where
  "grouped = \<lparr>nodes = [(plain_node ''A'')\<lparr>node_group := 5\<rparr>, (plain_node ''B'')\<lparr>node_group := 5\<rparr>,
                       (plain_node ''C'')\<lparr>node_group := 9\<rparr>],
               links = [plain_link ''A'' ''B'']\<rparr>"


section \<open>Notions used to state and prove the claims\<close>

text \<open>The directed edges that an adjacency map offers to a traversal, and the undirected
  edges of a list of links.\<close>

definition edges :: "adjacency \<Rightarrow> (string \<times> string) set" where
  "edges adj = {(a, b). b \<in> set (neighbors adj a)}"

definition linked :: "Link list \<Rightarrow> (string \<times> string) set" where
  "linked ls = {(a, b). \<exists>l \<in> set ls. (sourceId l = a \<and> targetId l = b) \<or>
                                      (targetId l = a \<and> sourceId l = b)}"

text \<open>What one call of \<open>dfs\<close> or \<open>dfs_each\<close> does to its state: the visited set
  grows, the component gains exactly the newly visited nodes at its end, and every new
  node is reachable from a start node and has all its neighbours visited.\<close>

definition dfs_post :: "adjacency \<Rightarrow> string set \<Rightarrow> string list \<times> string list
                          \<Rightarrow> string list \<times> string list \<Rightarrow> bool" where
  "dfs_post adj S st st' \<longleftrightarrow>
     set (fst st) \<subseteq> set (fst st')
     \<and> set (snd st') = set (snd st) \<union> (set (fst st') - set (fst st))
     \<and> (\<forall>u \<in> set (fst st') - set (fst st).
           (\<exists>n \<in> S. (n, u) \<in> (edges adj)\<^sup>*) \<and> set (neighbors adj u) \<subseteq> set (fst st'))
     \<and> (\<exists>ys. snd st' = snd st @ ys)"

text \<open>What \<open>calculateCentrality\<close> does to one node, given its normalised rank.\<close>

definition with_rank :: "(Node \<Rightarrow> real) \<Rightarrow> Node \<Rightarrow> Node" where
  "with_rank \<rho> node = node\<lparr>node_pageRank := Some (\<rho> node), node_size := Some (5 + \<rho> node * 25)\<rparr>"

text \<open>What \<open>calculateLinkWeights\<close> does to one link.\<close>

definition rescale :: "Link list \<Rightarrow> Link \<Rightarrow> Link" where
  "rescale ls link =
     (let maxWeight = Math_max (map link_value ls);
          minWeight = Math_min (map link_value ls);
          weightRange = maxWeight - minWeight
      in if weightRange > 0 then link\<lparr>link_value := 1 + (link_value link - minWeight) / weightRange * 4\<rparr>
         else link\<lparr>link_value := 1\<rparr>)"

text \<open>The nodes that a traversal of the map reaches from \<open>f\<close> in at most \<open>k\<close> steps,
  and the nodes at undirected distance at most \<open>k\<close> from \<open>f\<close> in a list of links.\<close>

primrec hops :: "adjacency \<Rightarrow> string \<Rightarrow> nat \<Rightarrow> string set" where
  "hops adj f 0 = {f}"
| "hops adj f (Suc k) = hops adj f k \<union> {b. \<exists>a \<in> hops adj f k. b \<in> set (neighbors adj a)}"

definition within_hops :: "Link list \<Rightarrow> string \<Rightarrow> nat \<Rightarrow> string set" where
  "within_hops ls f k = {v. \<exists>j \<le> k. (f, v) \<in> linked ls ^^ j}"

text \<open>The loop invariant of \<open>bfs\<close> for the start node \<open>f\<close> and the depth bound \<open>m\<close>: the
  depth stored with a queued node is its distance from \<open>f\<close>, the queue is sorted by depth
  and spans at most two depths, everything within the depth of the first entry is visited,
  and every visited node that has left the queue and is nearer than \<open>m\<close> has all its
  neighbours visited.\<close>

definition bfs_inv :: "adjacency \<Rightarrow> string \<Rightarrow> nat \<Rightarrow> bfs_state \<Rightarrow> bool" where
  "bfs_inv adj f m st \<longleftrightarrow>
     (case st of (visited, highlightedNodes, queue) \<Rightarrow>
        set highlightedNodes = set visited \<and> f \<in> set visited
        \<and> set visited \<subseteq> hops adj f m
        \<and> (\<forall>(v, d) \<in> set queue. v \<in> set visited \<and> v \<in> hops adj f d
                                 \<and> (\<forall>j < d. v \<notin> hops adj f j) \<and> d \<le> m)
        \<and> sorted (map snd queue)
        \<and> (\<forall>(v, d) \<in> set queue. d \<le> Suc (snd (hd queue)))
        \<and> (queue \<noteq> [] \<longrightarrow> hops adj f (snd (hd queue)) \<subseteq> set visited)
        \<and> (\<forall>w \<in> set visited. w \<notin> fst ` set queue \<longrightarrow>
              (\<forall>j < m. w \<in> hops adj f j \<longrightarrow> set (neighbors adj w) \<subseteq> set visited)))"

text \<open>The invariant of \<open>find_components\<close>: the visited nodes are the members of the
  components found so far, no edge leaves them, and every component is a non-empty list
  whose members are reachable from its first member, an id from \<open>I\<close>.\<close>

definition comp_inv :: "adjacency \<Rightarrow> string set \<Rightarrow> string list \<times> string list list \<Rightarrow> bool" where
  "comp_inv adj I st \<longleftrightarrow>
     set (fst st) = \<Union> (set ` set (snd st))
     \<and> (\<forall>u \<in> set (fst st). set (neighbors adj u) \<subseteq> set (fst st))
     \<and> (\<forall>c \<in> set (snd st). c \<noteq> [] \<and> hd c \<in> I \<and> (\<forall>u \<in> set c. (hd c, u) \<in> (edges adj)\<^sup>*))"







text \<open>The weighted out-degree of a node: the sum of the weights of the links that leave it.\<close>

definition out_weight :: "Link list \<Rightarrow> string \<Rightarrow> real" where
  "out_weight ls k = (\<Sum>l \<leftarrow> ls. if sourceId l = k then link_value l else 0)"


section \<open>Facts about the adjacency map\<close>

lemma set_set_add [simp]: "set (set_add x xs) = insert x (set xs)"
  by (auto simp: set_add_def)

lemma distinct_set_add [simp]: "distinct (set_add x xs) = distinct xs"
  by (simp add: set_add_def)

lemma map_of_Some_key: "map_of m k = Some v \<Longrightarrow> k \<in> fst ` set m"
  by (force dest: map_of_SomeD)

lemma neighbors_get_add:
  "neighbors (get_add k v m) a =
     (if a = k \<and> k \<in> fst ` set m then set_add v (neighbors m k) else neighbors m a)"
  by (auto simp: neighbors_def get_add_def update_conv map_of_eq_None_iff dom_update
           split: option.splits dest: map_of_Some_key)

lemma keys_get_add [simp]: "fst ` set (get_add k v m) = fst ` set m"
proof (cases "map_of m k")
  case None
  then show ?thesis by (simp add: get_add_def)
next
  case (Some s)
  then have "k \<in> fst ` set m" by (force dest: map_of_SomeD)
  then show ?thesis using Some
    by (auto simp: get_add_def dom_update)
qed

lemma keys_add_link [simp]: "fst ` set (add_link l m) = fst ` set m"
  by (simp add: add_link_def)

lemma keys_fold_add_link [simp]: "fst ` set (fold add_link ls m) = fst ` set m"
  by (induction ls arbitrary: m) simp_all

lemma keys_init_fold:
  "fst ` set (fold (\<lambda>n m. AList.update (node_id n) [] m) ns m0) = fst ` set m0 \<union> node_id ` set ns"
  by (induction ns arbitrary: m0) (auto simp: dom_update)

lemma keys_init_adjacency [simp]: "fst ` set (init_adjacency ns) = node_id ` set ns"
  by (simp add: init_adjacency_def keys_init_fold)

lemma keys_build_adjacency [simp]: "fst ` set (build_adjacency ns ls) = node_id ` set ns"
  by (simp add: build_adjacency_def)

lemma neighbors_init_fold:
  "(\<forall>k. neighbors m0 k = []) \<Longrightarrow>
   neighbors (fold (\<lambda>n m. AList.update (node_id n) [] m) ns m0) k = []"
  by (induction ns arbitrary: m0) (auto simp: neighbors_def update_conv split: option.splits)

lemma neighbors_init_adjacency [simp]: "neighbors (init_adjacency ns) k = []"
  unfolding init_adjacency_def by (rule neighbors_init_fold) (simp add: neighbors_def)

lemma set_neighbors_add_link:
  "set (neighbors (add_link l m) a) =
     set (neighbors m a)
     \<union> (if a = sourceId l \<and> a \<in> fst ` set m then {targetId l} else {})
     \<union> (if a = targetId l \<and> a \<in> fst ` set m then {sourceId l} else {})"
  by (auto simp: add_link_def neighbors_get_add)

lemma set_neighbors_fold_add_link:
  "set (neighbors (fold add_link ls m) a) =
     set (neighbors m a)
     \<union> (if a \<in> fst ` set m
        then {b. \<exists>l \<in> set ls. (sourceId l = a \<and> targetId l = b) \<or> (targetId l = a \<and> sourceId l = b)}
        else {})"
proof (induction ls arbitrary: m)
  case Nil
  then show ?case by simp
next
  case (Cons l ls)
  show ?case
    by (simp only: fold_simps Cons.IH set_neighbors_add_link keys_add_link) auto
qed

lemma set_neighbors_build_adjacency:
  "set (neighbors (build_adjacency ns ls) a) =
     (if a \<in> node_id ` set ns
      then {b. \<exists>l \<in> set ls. (sourceId l = a \<and> targetId l = b) \<or> (targetId l = a \<and> sourceId l = b)}
      else {})"
  by (simp add: build_adjacency_def set_neighbors_fold_add_link)

section \<open>Facts about \<open>indexOf\<close> and filtered prefixes\<close>

lemma indexOf_filter_nth:
  "distinct (map fst ls) \<Longrightarrow> i < length ls \<Longrightarrow> P (ls ! i) \<Longrightarrow>
   indexOf (filter P ls) (fst (ls ! i)) = int (length (filter P (take i ls)))"
proof (induction ls arbitrary: i)
  case Nil
  then show ?case by simp
next
  case (Cons x xs)
  show ?case
  proof (cases i)
    case 0
    with Cons.prems show ?thesis by simp
  next
    case (Suc k)
    with Cons.prems have k: "k < length xs" "P (xs ! k)" "distinct (map fst xs)" by simp_all
    have ne: "fst x \<noteq> fst (xs ! k)"
    proof -
      have "xs ! k \<in> set xs" using k(1) by simp
      then show ?thesis using Cons.prems(1) by force
    qed
    have ih: "indexOf (filter P xs) (fst (xs ! k)) = int (length (filter P (take k xs)))"
      using Cons.IH k by simp
    show ?thesis using Suc ne ih by (simp add: Let_def)
  qed
qed

lemma length_filter_take_less:
  "i < length ls \<Longrightarrow> P (ls ! i) \<Longrightarrow> length (filter P (take i ls)) < length (filter P ls)"
proof -
  assume a: "i < length ls" "P (ls ! i)"
  have "ls = take i ls @ ls ! i # drop (Suc i) ls" using a(1) by (simp add: id_take_nth_drop)
  then have "filter P ls = filter P (take i ls) @ filter P (ls ! i # drop (Suc i) ls)"
    by (metis filter_append)
  then show ?thesis using a(2) by simp
qed

lemma length_filter_take_mono:
  "i < j \<Longrightarrow> j < length ls \<Longrightarrow> P (ls ! i) \<Longrightarrow>
   length (filter P (take i ls)) < length (filter P (take j ls))"
proof -
  assume a: "i < j" "j < length ls" "P (ls ! i)"
  have "length (filter P (take i (take j ls))) < length (filter P (take j ls))"
    by (rule length_filter_take_less) (use a in simp_all)
  then show ?thesis using a by (simp add: min_def)
qed

lemma calculateLinkCurvature_not_self:
  assumes refs: "distinct (map fst ls)" and n: "n < length ls"
    and ne: "sourceId (snd (ls ! n)) \<noteq> targetId (snd (ls ! n))"
  shows "calculateLinkCurvature (ls ! n) ls =
      (if length (filter (isParallel (sourceId (snd (ls ! n))) (targetId (snd (ls ! n)))) ls) = 1
       then 0
       else 0.5 * (real (length (filter (isParallel (sourceId (snd (ls ! n))) (targetId (snd (ls ! n))))
                                   (take n ls)))
                   - (real (length (filter (isParallel (sourceId (snd (ls ! n))) (targetId (snd (ls ! n))))
                                     ls)) - 1) / 2))"
proof -
  have "isParallel (sourceId (snd (ls ! n))) (targetId (snd (ls ! n))) (ls ! n)"
    by (simp add: isParallel_def)
  with indexOf_filter_nth
    [of ls n "isParallel (sourceId (snd (ls ! n))) (targetId (snd (ls ! n)))"] refs n ne
  show ?thesis
    by (simp add: calculateLinkCurvature_def Let_def)
qed

lemma parallel_curvatures_differ:
  assumes refs: "distinct (map fst ls)" and i: "i < length ls" and j: "j < length ls"
    and ij: "i \<noteq> j" and ne: "sourceId (snd (ls ! i)) \<noteq> targetId (snd (ls ! i))"
    and par: "isParallel (sourceId (snd (ls ! i))) (targetId (snd (ls ! i))) (ls ! j)"
  shows "calculateLinkCurvature (ls ! i) ls \<noteq> calculateLinkCurvature (ls ! j) ls"
proof -
  define P where "P = isParallel (sourceId (snd (ls ! i))) (targetId (snd (ls ! i)))"
  have nej: "sourceId (snd (ls ! j)) \<noteq> targetId (snd (ls ! j))"
    using par ne by (auto simp: isParallel_def)
  have same: "isParallel (sourceId (snd (ls ! j))) (targetId (snd (ls ! j))) = P"
    using par by (auto simp: P_def isParallel_def fun_eq_iff)
  have pij: "P (ls ! j)" "P (ls ! i)"
    using par by (simp_all add: P_def isParallel_def)
  have two: "length (filter P ls) \<noteq> 1"
  proof -
    have "length (filter P (take (max i j) ls)) < length (filter P ls)"
      using i j pij by (intro length_filter_take_less) (auto simp: max_def)
    moreover have "length (filter P (take (min i j) ls)) < length (filter P (take (max i j) ls))"
      using i j ij pij by (intro length_filter_take_mono) (auto simp: max_def min_def)
    ultimately show ?thesis by linarith
  qed
  have cnt: "length (filter P (take i ls)) \<noteq> length (filter P (take j ls))"
  proof (cases "i < j")
    case True
    then show ?thesis
      using length_filter_take_mono [of i j ls P] j pij(2) by simp
  next
    case False
    then have "j < i" using ij by simp
    then show ?thesis
      using length_filter_take_mono [of j i ls P] i pij(1) by simp
  qed
  show ?thesis
    using calculateLinkCurvature_not_self [OF refs i ne]
      calculateLinkCurvature_not_self [OF refs j nej] two cnt
    by (simp add: same flip: P_def)
qed

section \<open>Facts about \<open>parentCount\<close>\<close>

lemma parentCount_init:
  "distinct (map fst m0) \<Longrightarrow>
   distinct (map fst (fold (\<lambda>n m. AList.update (node_id n) (0::nat) m) ns m0))
   \<and> map_of (fold (\<lambda>n m. AList.update (node_id n) (0::nat) m) ns m0) k =
       (if k \<in> node_id ` set ns then Some 0 else map_of m0 k)"
  by (induction ns arbitrary: m0) (auto simp: distinct_update update_conv)

lemma no_target_filter: "k \<notin> targetId ` set ls \<Longrightarrow> filter (\<lambda>l. targetId l = k) ls = []"
  by (auto simp: filter_empty_conv)

lemma parentCount_links:
  "distinct (map fst m0) \<Longrightarrow>
   distinct (map fst (fold (\<lambda>l m. AList.update (targetId l)
                    ((case map_of m (targetId l) of None \<Rightarrow> 0 | Some c \<Rightarrow> c) + 1) m) ls m0))
   \<and> map_of (fold (\<lambda>l m. AList.update (targetId l)
                    ((case map_of m (targetId l) of None \<Rightarrow> 0 | Some c \<Rightarrow> c) + 1) m) ls m0) k =
       (if k \<in> targetId ` set ls
        then Some ((case map_of m0 k of None \<Rightarrow> 0 | Some c \<Rightarrow> c) + incoming ls k)
        else map_of m0 k)"
proof (induction ls arbitrary: m0)
  case Nil
  then show ?case by simp
next
  case (Cons l ls)
  let ?m1 = "AList.update (targetId l)
                    ((case map_of m0 (targetId l) of None \<Rightarrow> 0 | Some c \<Rightarrow> c) + 1) m0"
  have d1: "distinct (map fst ?m1)" using Cons.prems by (simp add: distinct_update)
  show ?case
    using Cons.IH [OF d1]
    by (auto simp: update_conv incoming_def no_target_filter split: option.splits)
qed

lemma parentCount_lookup:
  "distinct (map fst (parentCount ns ls)) \<and>
   map_of (parentCount ns ls) k =
     (if k \<in> node_id ` set ns \<union> targetId ` set ls then Some (incoming ls k) else None)"
  using parentCount_links [of "fold (\<lambda>n m. AList.update (node_id n) 0 m) ns []" ls k]
    parentCount_init [of "[]" ns]
  by (auto simp: parentCount_def incoming_def no_target_filter)

lemma isTree_iff:
  "isTree ns ls \<longleftrightarrow> (\<forall>k \<in> node_id ` set ns \<union> targetId ` set ls. incoming ls k \<le> 1)"
proof -
  have d: "distinct (map fst (parentCount ns ls))" using parentCount_lookup by blast
  have "(\<forall>c \<in> snd ` set (parentCount ns ls). c \<le> 1) \<longleftrightarrow>
        (\<forall>k c. map_of (parentCount ns ls) k = Some c \<longrightarrow> c \<le> 1)"
    using d by (force simp: map_of_eq_Some_iff)
  also have "\<dots> \<longleftrightarrow> (\<forall>k \<in> node_id ` set ns \<union> targetId ` set ls. incoming ls k \<le> 1)"
    by (simp add: parentCount_lookup split: if_splits) blast
  finally show ?thesis by (simp add: isTree_def list_all_iff)
qed

section \<open>Facts about the depth-first search\<close>

lemma dfs_post_refl: "dfs_post adj S st st"
  by (simp add: dfs_post_def)

lemma dfs_post_trans:
  assumes "dfs_post adj S1 st st1" and "dfs_post adj S2 st1 st2"
  shows "dfs_post adj (S1 \<union> S2) st st2"
  using assms unfolding dfs_post_def
  apply (intro conjI)
     apply blast
    apply blast
   apply (metis (no_types, lifting) DiffD1 DiffD2 DiffI UnI1 UnI2 subset_trans)
  apply (metis append.assoc)
  done

lemma dfs_post_mono: "dfs_post adj S st st' \<Longrightarrow> S \<subseteq> T \<Longrightarrow> dfs_post adj T st st'"
  unfolding dfs_post_def by blast

lemma dfs_post_inv: "dfs_post adj S st st' \<Longrightarrow> set (snd st) \<subseteq> set (fst st) \<Longrightarrow> set (snd st') \<subseteq> set (fst st')"
  unfolding dfs_post_def by blast

lemma dfs_step:
  assumes v: "v \<notin> set (fst st)" and c: "set (snd st) \<subseteq> set (fst st)"
    and each: "dfs_post adj (set (neighbors adj v)) (set_add v (fst st), set_add v (snd st)) st'"
    and nb: "set (neighbors adj v) \<subseteq> set (fst st')"
  shows "dfs_post adj {v} st st' \<and> v \<in> set (fst st') \<and> (\<exists>ys. snd st' = snd st @ v # ys)"
proof -
  have vc: "v \<notin> set (snd st)" using v c by auto
  have sub: "insert v (set (fst st)) \<subseteq> set (fst st')"
    using each unfolding dfs_post_def by simp
  have comp: "set (snd st') = insert v (set (snd st)) \<union> (set (fst st') - insert v (set (fst st)))"
    using each unfolding dfs_post_def by simp
  have new: "(\<exists>n \<in> set (neighbors adj v). (n, u) \<in> (edges adj)\<^sup>*) \<and> set (neighbors adj u) \<subseteq> set (fst st')"
    if "u \<in> set (fst st')" "u \<noteq> v" "u \<notin> set (fst st)" for u
    using each that unfolding dfs_post_def by simp
  obtain ys where pre: "snd st' = set_add v (snd st) @ ys"
    using each unfolding dfs_post_def by auto
  have pre': "snd st' = snd st @ v # ys" using pre vc by (simp add: set_add_def)
  have vin: "v \<in> set (fst st')" using sub by simp
  have reach: "(\<exists>n \<in> {v}. (n, u) \<in> (edges adj)\<^sup>*) \<and> set (neighbors adj u) \<subseteq> set (fst st')"
    if u: "u \<in> set (fst st') - set (fst st)" for u
  proof (cases "u = v")
    case True
    then show ?thesis using nb by simp
  next
    case False
    then obtain n where n: "n \<in> set (neighbors adj v)" "(n, u) \<in> (edges adj)\<^sup>*"
      and cl: "set (neighbors adj u) \<subseteq> set (fst st')" using new [of u] u by auto
    have "(v, n) \<in> edges adj" using n(1) by (simp add: edges_def)
    then have "(v, u) \<in> (edges adj)\<^sup>*" using n(2) by (rule converse_rtrancl_into_rtrancl)
    then show ?thesis using cl by simp
  qed
  have "dfs_post adj {v} st st'"
    unfolding dfs_post_def
  proof (intro conjI)
    show "set (fst st) \<subseteq> set (fst st')" using sub by simp
    show "set (snd st') = set (snd st) \<union> (set (fst st') - set (fst st))"
      unfolding comp using vin v by auto
    show "\<forall>u \<in> set (fst st') - set (fst st).
           (\<exists>n \<in> {v}. (n, u) \<in> (edges adj)\<^sup>*) \<and> set (neighbors adj u) \<subseteq> set (fst st')"
      using reach by (intro ballI)
    show "\<exists>ys. snd st' = snd st @ ys" using pre' by simp
  qed
  then show ?thesis using vin pre' by simp
qed

lemma dfs_correct:
  "(\<forall>st'. v \<notin> set (fst st) \<longrightarrow> set (snd st) \<subseteq> set (fst st) \<longrightarrow> dfs k adj v st = Inr st' \<longrightarrow>
      dfs_post adj {v} st st' \<and> v \<in> set (fst st') \<and> (\<exists>ys. snd st' = snd st @ v # ys))"
  "(\<forall>st'. set (snd st) \<subseteq> set (fst st) \<longrightarrow> dfs_each k adj ns st = Inr st' \<longrightarrow>
      dfs_post adj (set ns) st st' \<and> set ns \<subseteq> set (fst st'))"
proof (induction k adj v st and k adj ns st rule: dfs_dfs_each.induct)
  case (1 adj nodeId st)
  then show ?case by simp
next
  case (2 depth adj nodeId visited component)
  show ?case
  proof (intro allI impI)
    fix st'
    assume v: "nodeId \<notin> set (fst (visited, component))"
      and c: "set (snd (visited, component)) \<subseteq> set (fst (visited, component))"
      and run: "dfs (Suc depth) adj nodeId (visited, component) = Inr st'"
    have run': "dfs_each depth adj (neighbors adj nodeId)
                  (set_add nodeId visited, set_add nodeId component) = Inr st'"
      using run by simp
    have c': "set (snd (set_add nodeId visited, set_add nodeId component))
                \<subseteq> set (fst (set_add nodeId visited, set_add nodeId component))"
      using c by auto
    note ih = "2.IH" [rule_format, OF c' run']
    have e: "dfs_post adj (set (neighbors adj nodeId))
            (set_add (nodeId) (fst (visited, component)), set_add nodeId (snd (visited, component))) st'"
      using ih by simp
    show "dfs_post adj {nodeId} (visited, component) st' \<and> nodeId \<in> set (fst st')
               \<and> (\<exists>ys. snd st' = snd (visited, component) @ nodeId # ys)"
      using dfs_step [OF v c e] ih by simp
  qed
next
  case (3 depth adj st)
  then show ?case by (simp add: dfs_post_refl)
next
  case (4 depth adj neighbor rest visited component)
  show ?case
  proof (intro allI impI)
    fix st'
    assume c: "set (snd (visited, component)) \<subseteq> set (fst (visited, component))"
      and run: "dfs_each depth adj (neighbor # rest) (visited, component) = Inr st'"
    show "dfs_post adj (set (neighbor # rest)) (visited, component) st'
          \<and> set (neighbor # rest) \<subseteq> set (fst st')"
    proof (cases "neighbor \<in> set visited")
      case True
      then have r: "dfs_each depth adj rest (visited, component) = Inr st'" using run by simp
      have nn: "\<not> neighbor \<notin> set visited" using True by simp
      note ih = "4.IH"(3) [OF nn, rule_format, OF c r]
      have p: "dfs_post adj (set rest) (visited, component) st'" using ih by simp
      have "set visited \<subseteq> set (fst st')" using p by (simp add: dfs_post_def)
      moreover have "dfs_post adj (set (neighbor # rest)) (visited, component) st'"
        by (rule dfs_post_mono [OF p]) auto
      ultimately show ?thesis using True ih by auto
    next
      case False
      obtain st1 where s1: "dfs depth adj neighbor (visited, component) = Inr st1"
        and s2: "dfs_each depth adj rest st1 = Inr st'"
      proof (cases "dfs depth adj neighbor (visited, component)")
        case (Inl e)
        then show ?thesis using run False by simp
      next
        case (Inr st1)
        then show ?thesis using run False that by simp
      qed
      have v: "neighbor \<notin> set (fst (visited, component))" using False by simp
      note ih1 = "4.IH"(1) [OF False, rule_format, OF v c s1]
      have p1: "dfs_post adj {neighbor} (visited, component) st1" using ih1 by simp
      have n1: "neighbor \<in> set (fst st1)" using ih1 by simp
      have c1: "set (snd st1) \<subseteq> set (fst st1)" using dfs_post_inv [OF p1] c by simp
      note ih2 = "4.IH"(2) [OF False s1, rule_format, OF c1 s2]
      have p2: "dfs_post adj (set rest) st1 st'" using ih2 by simp
      have "dfs_post adj ({neighbor} \<union> set rest) (visited, component) st'"
        using dfs_post_trans [OF p1 p2] .
      moreover have "set (fst st1) \<subseteq> set (fst st')" using p2 by (simp add: dfs_post_def)
      ultimately show ?thesis using n1 ih2 by auto
    qed
  qed
qed

lemma dfs_total:
  "(finite U \<longrightarrow> (\<forall>u. set (neighbors adj u) \<subseteq> U) \<longrightarrow> v \<in> U \<longrightarrow> v \<notin> set (fst st) \<longrightarrow>
      set (snd st) \<subseteq> set (fst st) \<longrightarrow> card (U - set (fst st)) \<le> k \<longrightarrow>
      (\<exists>st'. dfs k adj v st = Inr st'))"
  "(finite U \<longrightarrow> (\<forall>u. set (neighbors adj u) \<subseteq> U) \<longrightarrow> set ns \<subseteq> U \<longrightarrow>
      set (snd st) \<subseteq> set (fst st) \<longrightarrow> card (U - set (fst st)) \<le> k \<longrightarrow>
      (\<exists>st'. dfs_each k adj ns st = Inr st'))"
proof (induction k adj v st and k adj ns st rule: dfs_dfs_each.induct)
  case (1 adj nodeId st)
  show ?case
  proof (intro impI)
    assume fin: "finite U" and v: "nodeId \<in> U" "nodeId \<notin> set (fst st)"
      and card: "card (U - set (fst st)) \<le> 0"
    have "U - set (fst st) = {}" using fin card by simp
    then show "\<exists>st'. dfs 0 adj nodeId st = Inr st'" using v by auto
  qed
next
  case (2 depth adj nodeId visited component)
  show ?case
  proof (intro impI)
    assume fin: "finite U" and cl: "\<forall>u. set (neighbors adj u) \<subseteq> U"
      and v: "nodeId \<in> U" "nodeId \<notin> set (fst (visited, component))"
      and c: "set (snd (visited, component)) \<subseteq> set (fst (visited, component))"
      and card: "card (U - set (fst (visited, component))) \<le> Suc depth"
    have ns: "set (neighbors adj nodeId) \<subseteq> U" using cl by simp
    have c': "set (snd (set_add nodeId visited, set_add nodeId component))
                \<subseteq> set (fst (set_add nodeId visited, set_add nodeId component))"
      using c by auto
    have "U - set (fst (set_add nodeId visited, set_add nodeId component))
            = (U - set visited) - {nodeId}" by auto
    moreover have "nodeId \<in> U - set visited" using v by simp
    ultimately have card': "card (U - set (fst (set_add nodeId visited, set_add nodeId component))) \<le> depth"
      using card fin by simp
    from "2.IH" [rule_format, OF fin cl [rule_format] ns c' card']
    show "\<exists>st'. dfs (Suc depth) adj nodeId (visited, component) = Inr st'" by simp
  qed
next
  case (3 depth adj st)
  then show ?case by simp
next
  case (4 depth adj neighbor rest visited component)
  show ?case
  proof (intro impI)
    assume fin: "finite U" and cl: "\<forall>u. set (neighbors adj u) \<subseteq> U"
      and ns: "set (neighbor # rest) \<subseteq> U"
      and c: "set (snd (visited, component)) \<subseteq> set (fst (visited, component))"
      and card: "card (U - set (fst (visited, component))) \<le> depth"
    have rest: "set rest \<subseteq> U" and nU: "neighbor \<in> U" using ns by simp_all
    show "\<exists>st'. dfs_each depth adj (neighbor # rest) (visited, component) = Inr st'"
    proof (cases "neighbor \<in> set visited")
      case True
      then have nn: "\<not> neighbor \<notin> set visited" by simp
      from "4.IH"(3) [OF nn, rule_format, OF fin cl [rule_format] rest c card] True
      show ?thesis by simp
    next
      case False
      have v: "neighbor \<notin> set (fst (visited, component))" using False by simp
      from "4.IH"(1) [OF False, rule_format, OF fin cl [rule_format] nU v c card]
      obtain st1 where s1: "dfs depth adj neighbor (visited, component) = Inr st1" by blast
      note p1 = dfs_correct(1) [rule_format, OF v c s1]
      have p: "dfs_post adj {neighbor} (visited, component) st1" using p1 by simp
      have c1: "set (snd st1) \<subseteq> set (fst st1)" using dfs_post_inv [OF p] c by simp
      have "set visited \<subseteq> set (fst st1)" using p by (simp add: dfs_post_def)
      then have "U - set (fst st1) \<subseteq> U - set (fst (visited, component))" by auto
      then have "card (U - set (fst st1)) \<le> card (U - set (fst (visited, component)))"
        using fin by (intro card_mono) auto
      then have card1: "card (U - set (fst st1)) \<le> depth" using card by simp
      from "4.IH"(2) [OF False s1, rule_format, OF fin cl [rule_format] rest c1 card1]
      show ?thesis using False s1 by simp
    qed
  qed
qed

lemma comp_inv_init: "comp_inv adj I ([], [])"
  by (simp add: comp_inv_def)

lemma comp_inv_dfs:
  assumes inv: "comp_inv adj I (visited, components)"
    and v: "v \<notin> set visited" and vI: "v \<in> I"
    and run: "dfs k adj v (visited, []) = Inr (visited', component)"
  shows "comp_inv adj I (visited', components @ [component])"
    and "insert v (set visited) \<subseteq> set visited'"
proof -
  have v': "v \<notin> set (fst (visited, []))" and c: "set (snd (visited, [])) \<subseteq> set (fst (visited, []))"
    using v by simp_all
  note d = dfs_correct(1) [rule_format, OF v' c run]
  have post: "dfs_post adj {v} (visited, []) (visited', component)" using d by simp
  obtain ys where ys: "component = v # ys" using d by auto
  have sub: "set visited \<subseteq> set visited'" using post by (simp add: dfs_post_def)
  have comp: "set component = set visited' - set visited" using post by (simp add: dfs_post_def)
  have new: "(v, u) \<in> (edges adj)\<^sup>* \<and> set (neighbors adj u) \<subseteq> set visited'"
    if "u \<in> set visited'" "u \<notin> set visited" for u
    using post that by (simp add: dfs_post_def)
  have vin: "v \<in> set visited'" using d by simp
  show "insert v (set visited) \<subseteq> set visited'" using sub vin by simp
  have old: "set visited = \<Union> (set ` set components)"
    using inv unfolding comp_inv_def fst_conv snd_conv by (rule conjunct1)
  have closed: "set (neighbors adj u) \<subseteq> set visited" if "u \<in> set visited" for u
    using inv that unfolding comp_inv_def fst_conv snd_conv by blast
  have comps: "c \<noteq> [] \<and> hd c \<in> I \<and> (\<forall>u \<in> set c. (hd c, u) \<in> (edges adj)\<^sup>*)"
    if "c \<in> set components" for c
    using inv that unfolding comp_inv_def fst_conv snd_conv by blast
  show "comp_inv adj I (visited', components @ [component])"
    unfolding comp_inv_def fst_conv snd_conv
  proof (intro conjI)
    show "set visited' = \<Union> (set ` set (components @ [component]))"
      using old comp sub by auto
    show "\<forall>u \<in> set visited'. set (neighbors adj u) \<subseteq> set visited'"
    proof
      fix u assume u: "u \<in> set visited'"
      show "set (neighbors adj u) \<subseteq> set visited'"
      proof (cases "u \<in> set visited")
        case True
        then show ?thesis using closed [OF True] sub by auto
      next
        case False
        then show ?thesis using new [OF u False] by simp
      qed
    qed
    show "\<forall>c \<in> set (components @ [component]).
            c \<noteq> [] \<and> hd c \<in> I \<and> (\<forall>u \<in> set c. (hd c, u) \<in> (edges adj)\<^sup>*)"
    proof
      fix c assume "c \<in> set (components @ [component])"
      then consider "c \<in> set components" | "c = component" by auto
      then show "c \<noteq> [] \<and> hd c \<in> I \<and> (\<forall>u \<in> set c. (hd c, u) \<in> (edges adj)\<^sup>*)"
      proof cases
        case 1
        then show ?thesis using comps by simp
      next
        case 2
        have "(v, u) \<in> (edges adj)\<^sup>*" if "u \<in> set component" for u
          using that comp new [of u] by simp
        then show ?thesis using 2 ys vI by simp
      qed
    qed
  qed
qed

lemma find_components_correct:
  "comp_inv adj I st \<Longrightarrow> node_id ` set ns \<subseteq> I \<Longrightarrow> find_components k adj ns st = Inr st' \<Longrightarrow>
   comp_inv adj I st' \<and> set (fst st) \<union> node_id ` set ns \<subseteq> set (fst st')"
proof (induction ns arbitrary: st)
  case Nil
  then show ?case by simp
next
  case (Cons n ns)
  obtain visited components where st: "st = (visited, components)" by (cases st)
  show ?case
  proof (cases "node_id n \<in> set visited")
    case True
    then have "find_components k adj ns st = Inr st'" using Cons.prems(3) st by simp
    from Cons.IH [OF Cons.prems(1) _ this] Cons.prems(2) True st show ?thesis by auto
  next
    case False
    obtain visited' component where run: "dfs k adj (node_id n) (visited, []) = Inr (visited', component)"
      and rest: "find_components k adj ns (visited', components @ [component]) = Inr st'"
    proof (cases "dfs k adj (node_id n) (visited, [])")
      case (Inl e)
      then show ?thesis using Cons.prems(3) st False by simp
    next
      case (Inr r)
      then show ?thesis using Cons.prems(3) st False that by (cases r) simp
    qed
    have nI: "node_id n \<in> I" using Cons.prems(2) by simp
    have inv: "comp_inv adj I (visited, components)" using Cons.prems(1) st by simp
    note step = comp_inv_dfs [OF inv False nI run]
    have "node_id ` set ns \<subseteq> I" using Cons.prems(2) by simp
    from Cons.IH [OF step(1) this rest] step(2) st show ?thesis by auto
  qed
qed

lemma find_components_total:
  assumes fin: "finite U" and cl: "\<And>u. set (neighbors adj u) \<subseteq> U" and card: "card U \<le> k"
  shows "comp_inv adj I st \<Longrightarrow> node_id ` set ns \<subseteq> U \<Longrightarrow> node_id ` set ns \<subseteq> I \<Longrightarrow>
         \<exists>st'. find_components k adj ns st = Inr st'"
proof (induction ns arbitrary: st)
  case Nil
  then show ?case by simp
next
  case (Cons n ns)
  obtain visited components where st: "st = (visited, components)" by (cases st)
  have inv: "comp_inv adj I (visited, components)" using Cons.prems(1) st by simp
  have nsU: "node_id ` set ns \<subseteq> U" and nsI: "node_id ` set ns \<subseteq> I" using Cons.prems by simp_all
  show ?case
  proof (cases "node_id n \<in> set visited")
    case True
    from Cons.IH [OF Cons.prems(1) nsU nsI] True st show ?thesis by simp
  next
    case False
    have v: "node_id n \<notin> set (fst (visited, []))"
      and c: "set (snd (visited, [])) \<subseteq> set (fst (visited, []))" using False by simp_all
    have nU: "node_id n \<in> U" using Cons.prems(2) by simp
    have "card (U - set (fst (visited, []))) \<le> card U" using fin by (intro card_mono) auto
    then have card': "card (U - set (fst (visited, []))) \<le> k" using card by simp
    from dfs_total(1) [rule_format, OF fin cl nU v c card']
    obtain r where r: "dfs k adj (node_id n) (visited, []) = Inr r" by blast
    obtain visited' component where r': "r = (visited', component)" by (cases r)
    have nI: "node_id n \<in> I" using Cons.prems(3) by simp
    note step = comp_inv_dfs [OF inv False nI r [unfolded r']]
    from Cons.IH [OF step(1) nsU nsI] obtain st' where
      "find_components k adj ns (visited', components @ [component]) = Inr st'" by blast
    then show ?thesis using st False r r' by simp
  qed
qed

lemma find_components_visited:
  "node_id ` set ns \<subseteq> set (fst st) \<Longrightarrow> find_components k adj ns st = Inr st"
proof (induction ns)
  case Nil
  then show ?case by simp
next
  case (Cons n ns)
  then show ?case by (cases st) simp
qed

lemma closed_reach:
  assumes "(a, u) \<in> (edges adj)\<^sup>*" and "a \<in> V"
    and cl: "\<And>w. w \<in> V \<Longrightarrow> set (neighbors adj w) \<subseteq> V"
  shows "u \<in> V"
  using assms(1,2)
proof (induction rule: rtrancl_induct)
  case base
  then show ?case by simp
next
  case (step y z)
  then have "y \<in> V" by simp
  moreover have "z \<in> set (neighbors adj y)" using step.hyps(2) by (simp add: edges_def)
  ultimately show ?case using cl by blast
qed

section \<open>Facts about the repair step\<close>

lemma edges_build_adjacency:
  "edges (build_adjacency ns ls) = {(a, b). a \<in> node_id ` set ns \<and> (a, b) \<in> linked ls}"
  by (auto simp: edges_def linked_def set_neighbors_build_adjacency split: if_splits)

lemma linked_sym: "(a, b) \<in> linked ls \<Longrightarrow> (b, a) \<in> linked ls"
  by (auto simp: linked_def)

lemma linked_valid:
  "links_reference_nodes ns ls \<Longrightarrow> (a, b) \<in> linked ls \<Longrightarrow>
   a \<in> node_id ` set ns \<and> b \<in> node_id ` set ns"
  by (auto simp: linked_def links_reference_nodes_def list_all_iff)

lemma edges_build_adjacency_valid:
  "links_reference_nodes ns ls \<Longrightarrow> edges (build_adjacency ns ls) = linked ls"
  using linked_valid [of ns ls] by (auto simp: edges_build_adjacency)

lemma neighbors_build_adjacency_valid:
  "links_reference_nodes ns ls \<Longrightarrow> set (neighbors (build_adjacency ns ls) u) \<subseteq> node_id ` set ns"
  by (auto simp: set_neighbors_build_adjacency links_reference_nodes_def list_all_iff)

lemma linked_append: "linked (ls @ new) = linked ls \<union> linked new"
  by (auto simp: linked_def)

lemma calculateNodeSimilarity_nonneg: "0 \<le> calculateNodeSimilarity a b"
  by (auto simp: calculateNodeSimilarity_def Let_def split: option.splits)

lemma find_node_Some: "k \<in> node_id ` set ns \<Longrightarrow> \<exists>n. find_node ns k = Some n \<and> node_id n = k"
  unfolding find_node_def
  by (cases "List.find (\<lambda>n. node_id n = k) ns") (auto simp: find_None_iff find_Some_iff)

lemma bestMatch_member:
  "bestMatch ns isoNode main best = Inr b \<Longrightarrow> fst b \<in> set main \<or> b = best"
proof (induction main arbitrary: best)
  case Nil
  then show ?case by simp
next
  case (Cons m main)
  obtain n where n: "find_node ns m = Some n"
    using Cons.prems by (auto split: option.splits)
  let ?best' = "if calculateNodeSimilarity isoNode n > snd best
                then (m, calculateNodeSimilarity isoNode n) else best"
  have "bestMatch ns isoNode main ?best' = Inr b"
    using Cons.prems n by (simp add: Let_def)
  from Cons.IH [OF this] show ?case by (auto split: if_splits)
qed

lemma bestMatch_total:
  "set main \<subseteq> node_id ` set ns \<Longrightarrow> \<exists>b. bestMatch ns isoNode main best = Inr b"
proof (induction main arbitrary: best)
  case Nil
  then show ?case by simp
next
  case (Cons m main)
  then obtain n where "find_node ns m = Some n" using find_node_Some [of m ns] by auto
  then show ?case using Cons by (simp add: Let_def)
qed

lemma bestMatch_in_main:
  assumes "bestMatch ns isoNode main best = Inr b" and "main \<noteq> []" and "snd best < 0"
  shows "fst b \<in> set main"
proof -
  obtain m rest where main: "main = m # rest" using assms(2) by (cases main) auto
  obtain n where n: "find_node ns m = Some n"
    using assms(1) main by (auto split: option.splits)
  have "snd best < calculateNodeSimilarity isoNode n"
    using calculateNodeSimilarity_nonneg [of isoNode n] assms(3) by simp
  then have "bestMatch ns isoNode rest (m, calculateNodeSimilarity isoNode n) = Inr b"
    using assms(1) main n by (simp add: Let_def)
  from bestMatch_member [OF this] show ?thesis using main by auto
qed

lemma connect_components_shape:
  "connect_components ns main others = Inr new \<Longrightarrow>
   list_all2 (\<lambda>c l. c \<noteq> [] \<and> (\<exists>t. l = inferred_link (hd c) t \<and> (main \<noteq> [] \<longrightarrow> t \<in> set main))) others new"
proof (induction others arbitrary: new)
  case Nil
  then show ?case by simp
next
  case (Cons c others)
  obtain v ys where c: "c = v # ys" using Cons.prems by (cases c) auto
  obtain isoNode where isoNode: "find_node ns v = Some isoNode"
    using Cons.prems c by (auto split: option.splits)
  obtain b where b: "bestMatch ns isoNode main ([], - 1) = Inr b"
    using Cons.prems c isoNode by (auto split: sum.splits)
  obtain new' where new': "connect_components ns main others = Inr new'"
    and new: "new = inferred_link v (fst b) # new'"
    using Cons.prems c isoNode b by (auto split: sum.splits)
  have "main \<noteq> [] \<longrightarrow> fst b \<in> set main"
    using bestMatch_in_main [OF b] by simp
  then show ?case using Cons.IH [OF new'] new c by auto
qed

lemma connect_components_total:
  assumes "set main \<subseteq> node_id ` set ns"
  shows "\<forall>c \<in> set others. c \<noteq> [] \<and> hd c \<in> node_id ` set ns \<Longrightarrow>
         \<exists>new. connect_components ns main others = Inr new"
proof (induction others)
  case Nil
  then show ?case by simp
next
  case (Cons c others)
  obtain v ys where c: "c = v # ys" using Cons.prems by (cases c) auto
  have "v \<in> node_id ` set ns" using Cons.prems c by simp
  then obtain isoNode where isoNode: "find_node ns v = Some isoNode" using find_node_Some by blast
  obtain b where b: "bestMatch ns isoNode main ([], - 1) = Inr b"
    using bestMatch_total [OF assms] by blast
  obtain new' where "connect_components ns main others = Inr new'"
    using Cons by auto
  then show ?case using c isoNode b by simp
qed

lemma sort_components_set [simp]: "set (sort_components cs) = set cs"
  by (simp add: sort_components_def)

lemma sort_components_length [simp]: "length (sort_components cs) = length cs"
  by (simp add: sort_components_def)

lemma sort_components_largest:
  "sort_components cs = main # others \<Longrightarrow> c \<in> set cs \<Longrightarrow> length c \<le> length main"
proof -
  assume a: "sort_components cs = main # others" and c: "c \<in> set cs"
  have "sorted (map (\<lambda>c. - int (length c)) (sort_components cs))"
    by (simp add: sort_components_def)
  then have "\<forall>x \<in> set others. - int (length main) \<le> - int (length x)"
    using a by simp
  moreover have "c \<in> set (main # others)" using a c sort_components_set [of cs] by simp
  ultimately show ?thesis by auto
qed

lemma edges_reach_linked:
  "(a, u) \<in> (edges (build_adjacency ns ls))\<^sup>* \<Longrightarrow> (a, u) \<in> (linked ls)\<^sup>*"
proof -
  have "edges (build_adjacency ns ls) \<subseteq> linked ls" by (auto simp: edges_build_adjacency)
  then show "(a, u) \<in> (edges (build_adjacency ns ls))\<^sup>* \<Longrightarrow> (a, u) \<in> (linked ls)\<^sup>*"
    using rtrancl_mono by blast
qed

lemma linked_reach_ids:
  assumes "links_reference_nodes ns ls" and "(a, u) \<in> (linked ls)\<^sup>*" and "a \<in> node_id ` set ns"
  shows "u \<in> node_id ` set ns"
  using assms(2,3)
proof (induction rule: rtrancl_induct)
  case base
  then show ?case by simp
next
  case (step y z)
  then show ?case using linked_valid [OF assms(1), of y z] by simp
qed

lemma linked_reach_sym: "(a, b) \<in> (linked ls)\<^sup>* \<Longrightarrow> (b, a) \<in> (linked ls)\<^sup>*"
proof -
  have "sym (linked ls)" by (auto simp: sym_def linked_sym)
  then have "sym ((linked ls)\<^sup>*)" by (rule sym_rtrancl)
  then show "(a, b) \<in> (linked ls)\<^sup>* \<Longrightarrow> (b, a) \<in> (linked ls)\<^sup>*" by (simp add: sym_def)
qed

lemma card_ids: "card (node_id ` set ns) \<le> length ns"
  by (meson card_image_le card_length le_trans List.finite_set)

text \<open>Everything \<open>find_components\<close> returns on a graph with referential integrity.\<close>

lemma find_components_result:
  assumes valid: "links_reference_nodes ns ls" and depth: "length ns \<le> depth"
  shows "\<exists>visited components.
      find_components depth (build_adjacency ns ls) ns ([], []) = Inr (visited, components)
      \<and> comp_inv (build_adjacency ns ls) (node_id ` set ns) (visited, components)
      \<and> set visited = node_id ` set ns
      \<and> (\<forall>c \<in> set components. set c \<subseteq> node_id ` set ns)"
proof -
  let ?adj = "build_adjacency ns ls" and ?I = "node_id ` set ns"
  have fin: "finite ?I" by simp
  have cl: "set (neighbors ?adj u) \<subseteq> ?I" for u
    using neighbors_build_adjacency_valid [OF valid] .
  have card: "card ?I \<le> depth" using card_ids [of ns] depth by simp
  from find_components_total [OF fin cl card comp_inv_init, of ns ?I]
  obtain st' where run: "find_components depth ?adj ns ([], []) = Inr st'" by auto
  obtain visited components where st': "st' = (visited, components)" by (cases st')
  from find_components_correct [OF comp_inv_init _ run, of ?I]
  have inv: "comp_inv ?adj ?I (visited, components)" and sub: "?I \<subseteq> set visited"
    using st' by simp_all
  have members: "set c \<subseteq> ?I" if c: "c \<in> set components" for c
  proof
    fix u assume u: "u \<in> set c"
    have "hd c \<in> ?I" and "(hd c, u) \<in> (edges ?adj)\<^sup>*"
      using inv c u unfolding comp_inv_def fst_conv snd_conv by blast+
    then show "u \<in> ?I" using linked_reach_ids [OF valid edges_reach_linked] by blast
  qed
  have "set visited = \<Union> (set ` set components)"
    using inv unfolding comp_inv_def fst_conv snd_conv by (rule conjunct1)
  then have "set visited \<subseteq> ?I" using members by auto
  then show ?thesis using run st' inv sub members by auto
qed

lemma list_all2_tl_Nil: "length xs \<le> 1 \<Longrightarrow> tl xs = []"
  by (cases xs) auto

text \<open>The shape of the result of \<open>connectIsolatedNodes\<close>.\<close>

lemma connectIsolatedNodes_result:
  assumes valid: "links_reference_nodes ns ls" and depth: "length ns \<le> depth"
  shows "\<exists>visited components new.
      find_components depth (build_adjacency ns ls) ns ([], []) = Inr (visited, components)
      \<and> comp_inv (build_adjacency ns ls) (node_id ` set ns) (visited, components)
      \<and> set visited = node_id ` set ns
      \<and> (\<forall>c \<in> set components. set c \<subseteq> node_id ` set ns)
      \<and> connectIsolatedNodes depth ns ls = Inr \<lparr>nodes = ns, links = ls @ new\<rparr>
      \<and> list_all2 (\<lambda>c l. c \<noteq> [] \<and>
             (\<exists>t \<in> set (hd (sort_components components)). l = inferred_link (hd c) t))
           (tl (sort_components components)) new"
proof -
  let ?adj = "build_adjacency ns ls" and ?I = "node_id ` set ns"
  from find_components_result [OF valid depth]
  obtain visited components where
    run: "find_components depth ?adj ns ([], []) = Inr (visited, components)"
    and inv: "comp_inv ?adj ?I (visited, components)"
    and vis: "set visited = ?I"
    and members: "\<forall>c \<in> set components. set c \<subseteq> ?I" by blast
  have comps: "c \<noteq> [] \<and> hd c \<in> ?I" if "c \<in> set components" for c
    using inv that unfolding comp_inv_def fst_conv snd_conv by blast
  show ?thesis
  proof (cases "length components \<le> 1")
    case True
    then have "connectIsolatedNodes depth ns ls = Inr \<lparr>nodes = ns, links = ls @ []\<rparr>"
      using run by (simp add: connectIsolatedNodes_def)
    moreover have "tl (sort_components components) = []"
      using True by (intro list_all2_tl_Nil) simp
    ultimately show ?thesis using run inv vis members
      by (intro exI [of _ visited] exI [of _ components] exI [of _ "[]"]) simp
  next
    case False
    have "length (sort_components components) \<noteq> 0" using False by (cases components) simp_all
    then obtain main others where sorted: "sort_components components = main # others"
      by (cases "sort_components components") auto
    have mainc: "main \<in> set components" and othersc: "set others \<subseteq> set components"
      using sort_components_set [of components] sorted by auto
    have main: "main \<noteq> []" "set main \<subseteq> ?I" using comps [OF mainc] members mainc by auto
    have "\<forall>c \<in> set others. c \<noteq> [] \<and> hd c \<in> ?I" using comps othersc by blast
    from connect_components_total [OF main(2) this]
    obtain new where new: "connect_components ns main others = Inr new" by blast
    have "list_all2 (\<lambda>c l. c \<noteq> [] \<and> (\<exists>t. l = inferred_link (hd c) t \<and> (main \<noteq> [] \<longrightarrow> t \<in> set main)))
            others new"
      using connect_components_shape [OF new] .
    then have shape: "list_all2 (\<lambda>c l. c \<noteq> [] \<and> (\<exists>t \<in> set main. l = inferred_link (hd c) t)) others new"
      by (rule list_all2_mono) (use main(1) in auto)
    have "connectIsolatedNodes depth ns ls = Inr \<lparr>nodes = ns, links = ls @ new\<rparr>"
      using run False sorted new by (simp add: connectIsolatedNodes_def)
    then show ?thesis using run inv vis members shape sorted
      by (intro exI [of _ visited] exI [of _ components] exI [of _ new]) simp
  qed
qed

lemma inferred_link_ends [simp]:
  "sourceId (inferred_link s t) = s" "targetId (inferred_link s t) = t"
  by (simp_all add: inferred_link_def sourceId_def targetId_def)

lemma list_all2_right_member:
  "list_all2 P xs ys \<Longrightarrow> y \<in> set ys \<Longrightarrow> \<exists>x \<in> set xs. P x y"
  by (induction rule: list_all2_induct) auto

lemma connected_single_component:
  assumes valid: "links_reference_nodes ns ls" and depth: "length ns \<le> depth"
    and conn: "\<forall>a \<in> node_id ` set ns. \<forall>b \<in> node_id ` set ns. (a, b) \<in> (linked ls)\<^sup>*"
  shows "\<exists>visited components.
      find_components depth (build_adjacency ns ls) ns ([], []) = Inr (visited, components)
      \<and> length components = (if ns = [] then 0 else 1)"
proof (cases ns)
  case Nil
  then show ?thesis by simp
next
  case (Cons n rest)
  let ?adj = "build_adjacency ns ls" and ?I = "node_id ` set ns"
  from find_components_result [OF valid depth]
  obtain visited components where
    run: "find_components depth ?adj ns ([], []) = Inr (visited, components)" by blast
  obtain v1 c1 where d: "dfs depth ?adj (node_id n) ([], []) = Inr (v1, c1)"
    and rest: "find_components depth ?adj rest (v1, [] @ [c1]) = Inr (visited, components)"
  proof (cases "dfs depth ?adj (node_id n) ([], [])")
    case (Inl e)
    then show ?thesis using run Cons by simp
  next
    case (Inr r)
    then show ?thesis using run Cons that by (cases r) simp
  qed
  have nI: "node_id n \<in> ?I" using Cons by simp
  have nv: "node_id n \<notin> set []" by simp
  note step = comp_inv_dfs [OF comp_inv_init nv nI d]
  have closed: "set (neighbors ?adj w) \<subseteq> set v1" if "w \<in> set v1" for w
    using step(1) that unfolding comp_inv_def fst_conv snd_conv by blast
  have nin: "node_id n \<in> set v1" using step(2) by simp
  have all: "?I \<subseteq> set v1"
  proof
    fix b assume b: "b \<in> ?I"
    have "(node_id n, b) \<in> (linked ls)\<^sup>*" using conn nI b by blast
    then have "(node_id n, b) \<in> (edges ?adj)\<^sup>*"
      by (simp add: edges_build_adjacency_valid [OF valid])
    from closed_reach [OF this nin closed] show "b \<in> set v1" by simp
  qed
  have "node_id ` set rest \<subseteq> set (fst (v1, [] @ [c1]))" using all Cons by auto
  from find_components_visited [OF this, of depth ?adj] rest
  have "(visited, components) = (v1, [c1])" by simp
  then show ?thesis using run Cons by simp
qed

lemma list_all2_left_member:
  "list_all2 P xs ys \<Longrightarrow> x \<in> set xs \<Longrightarrow> \<exists>y \<in> set ys. P x y"
  by (induction rule: list_all2_induct) auto

lemma connectIsolatedNodes_connects:
  assumes valid: "links_reference_nodes ns ls" and depth: "length ns \<le> depth"
  shows "\<exists>new. connectIsolatedNodes depth ns ls = Inr \<lparr>nodes = ns, links = ls @ new\<rparr>
      \<and> links_reference_nodes ns (ls @ new)
      \<and> (\<forall>a \<in> node_id ` set ns. \<forall>b \<in> node_id ` set ns. (a, b) \<in> (linked (ls @ new))\<^sup>*)"
proof -
  let ?adj = "build_adjacency ns ls" and ?I = "node_id ` set ns"
  from connectIsolatedNodes_result [OF valid depth]
  obtain visited components new where
    inv: "comp_inv ?adj ?I (visited, components)"
    and vis: "set visited = ?I"
    and members: "\<forall>c \<in> set components. set c \<subseteq> ?I"
    and res: "connectIsolatedNodes depth ns ls = Inr \<lparr>nodes = ns, links = ls @ new\<rparr>"
    and shape: "list_all2 (\<lambda>c l. c \<noteq> [] \<and>
             (\<exists>t \<in> set (hd (sort_components components)). l = inferred_link (hd c) t))
           (tl (sort_components components)) new" by blast
  let ?sorted = "sort_components components" and ?L = "linked (ls @ new)"
  have cover: "set visited = \<Union> (set ` set components)"
    using inv unfolding comp_inv_def fst_conv snd_conv by (rule conjunct1)
  have reach: "(hd c, u) \<in> ?L\<^sup>*" if "c \<in> set components" "u \<in> set c" for c u
  proof -
    have "(hd c, u) \<in> (edges ?adj)\<^sup>*"
      using inv that unfolding comp_inv_def fst_conv snd_conv by blast
    then have "(hd c, u) \<in> (linked ls)\<^sup>*" by (rule edges_reach_linked)
    moreover have "linked ls \<subseteq> ?L" by (simp add: linked_append)
    ultimately show ?thesis using rtrancl_mono by blast
  qed
  have valid': "links_reference_nodes ns (ls @ new)"
  proof -
    have "sourceId l \<in> ?I \<and> targetId l \<in> ?I" if l: "l \<in> set new" for l
    proof -
      from list_all2_right_member [OF shape l] obtain c t where c: "c \<in> set (tl ?sorted)" "c \<noteq> []"
        and t: "t \<in> set (hd ?sorted)" and l': "l = inferred_link (hd c) t" by blast
      have ne: "?sorted \<noteq> []" using c(1) by auto
      have "c \<in> set ?sorted" using c(1) ne by (rule_tac list.set_sel(2))
      then have "c \<in> set components" by (simp only: sort_components_set)
      then have "set c \<subseteq> ?I" using members by blast
      moreover have "hd c \<in> set c" using c(2) by simp
      moreover have "hd ?sorted \<in> set ?sorted" using ne by (rule hd_in_set)
      then have "hd ?sorted \<in> set components" by (simp only: sort_components_set)
      then have "set (hd ?sorted) \<subseteq> ?I" using members by blast
      ultimately show ?thesis using t l' by auto
    qed
    then show ?thesis using valid unfolding links_reference_nodes_def list_all_iff by auto
  qed
  have connected: "(a, b) \<in> ?L\<^sup>*" if a: "a \<in> ?I" and b: "b \<in> ?I" for a b
  proof -
    obtain ca where ca: "ca \<in> set components" "a \<in> set ca" using a vis cover by auto
    have "components \<noteq> []" using ca(1) by auto
    then have ne: "?sorted \<noteq> []" by (metis length_0_conv sort_components_length)
    define main where "main = hd ?sorted"
    have mainc: "main \<in> set components"
      using hd_in_set [OF ne] unfolding main_def by (simp only: sort_components_set)
    have root: "(hd main, u) \<in> ?L\<^sup>*" if u: "u \<in> ?I" for u
    proof -
      obtain c where c: "c \<in> set components" "u \<in> set c" using u vis cover by auto
      have cu: "(hd c, u) \<in> ?L\<^sup>*" using reach [OF c] .
      have "c \<in> set ?sorted" using c(1) by (simp only: sort_components_set)
      then have "c = main \<or> c \<in> set (tl ?sorted)"
        using ne unfolding main_def by (cases ?sorted) auto
      then show ?thesis
      proof
        assume "c = main"
        then show ?thesis using cu by simp
      next
        assume "c \<in> set (tl ?sorted)"
        from list_all2_left_member [OF shape this] obtain l where l: "l \<in> set new" and
          cl: "c \<noteq> [] \<and> (\<exists>t \<in> set (hd ?sorted). l = inferred_link (hd c) t)"
          by blast
        then obtain t where t: "t \<in> set main" and l': "l = inferred_link (hd c) t"
          unfolding main_def by blast
        have "(hd main, t) \<in> ?L\<^sup>*" using reach [OF mainc t] .
        moreover have "(t, hd c) \<in> ?L"
        proof -
          have "targetId l = t \<and> sourceId l = hd c" using l' by simp
          moreover have "l \<in> set (ls @ new)" using l by simp
          ultimately show ?thesis unfolding linked_def by blast
        qed
        ultimately have "(hd main, hd c) \<in> ?L\<^sup>*" by (rule rtrancl_into_rtrancl)
        then show ?thesis using cu by (rule rtrancl_trans)
      qed
    qed
    have "(a, hd main) \<in> ?L\<^sup>*" using root [OF a] by (rule linked_reach_sym)
    then show ?thesis using root [OF b] by (rule rtrancl_trans)
  qed
  show ?thesis using res valid' connected by blast
qed

lemma component_closed_dfs:
  assumes inv: "comp_inv adj I (visited, components)"
    and sym: "\<And>a b. b \<in> set (neighbors adj a) \<Longrightarrow> a \<in> set (neighbors adj b)"
    and v: "v \<notin> set visited"
    and run: "dfs k adj v (visited, []) = Inr (visited', component)"
  shows "\<forall>u \<in> set component. set (neighbors adj u) \<subseteq> set component"
proof (intro ballI subsetI)
  fix u w assume u: "u \<in> set component" and w: "w \<in> set (neighbors adj u)"
  have v': "v \<notin> set (fst (visited, []))" and c: "set (snd (visited, [])) \<subseteq> set (fst (visited, []))"
    using v by simp_all
  note d = dfs_correct(1) [rule_format, OF v' c run]
  have post: "dfs_post adj {v} (visited, []) (visited', component)" using d by simp
  have comp: "set component = set visited' - set visited" using post by (simp add: dfs_post_def)
  have new: "set (neighbors adj x) \<subseteq> set visited'" if "x \<in> set visited'" "x \<notin> set visited" for x
    using post that by (simp add: dfs_post_def)
  have closed: "set (neighbors adj x) \<subseteq> set visited" if "x \<in> set visited" for x
    using inv that unfolding comp_inv_def fst_conv snd_conv by blast
  have "w \<in> set visited'" using new [of u] u w comp by auto
  moreover have "w \<notin> set visited"
  proof
    assume "w \<in> set visited"
    then have "u \<in> set visited" using closed [of w] sym [OF w] by auto
    then show False using u comp by simp
  qed
  ultimately show "w \<in> set component" using comp by simp
qed

lemma find_components_closed:
  assumes sym: "\<And>a b. b \<in> set (neighbors adj a) \<Longrightarrow> a \<in> set (neighbors adj b)"
  shows "comp_inv adj I st \<Longrightarrow> node_id ` set ns \<subseteq> I \<Longrightarrow>
         \<forall>c \<in> set (snd st). \<forall>u \<in> set c. set (neighbors adj u) \<subseteq> set c \<Longrightarrow>
         find_components k adj ns st = Inr st' \<Longrightarrow>
         \<forall>c \<in> set (snd st'). \<forall>u \<in> set c. set (neighbors adj u) \<subseteq> set c"
proof (induction ns arbitrary: st)
  case Nil
  then show ?case by simp
next
  case (Cons n ns)
  obtain visited components where st: "st = (visited, components)" by (cases st)
  have nsI: "node_id ` set ns \<subseteq> I" and nI: "node_id n \<in> I" using Cons.prems(2) by simp_all
  show ?case
  proof (cases "node_id n \<in> set visited")
    case True
    then have "find_components k adj ns st = Inr st'" using Cons.prems(4) st by simp
    from Cons.IH [OF Cons.prems(1) nsI Cons.prems(3) this] show ?thesis .
  next
    case False
    obtain visited' component where run: "dfs k adj (node_id n) (visited, []) = Inr (visited', component)"
      and rest: "find_components k adj ns (visited', components @ [component]) = Inr st'"
    proof (cases "dfs k adj (node_id n) (visited, [])")
      case (Inl e)
      then show ?thesis using Cons.prems(4) st False by simp
    next
      case (Inr r)
      then show ?thesis using Cons.prems(4) st False that by (cases r) simp
    qed
    have inv: "comp_inv adj I (visited, components)" using Cons.prems(1) st by simp
    note step = comp_inv_dfs [OF inv False nI run]
    have new: "\<forall>u \<in> set component. set (neighbors adj u) \<subseteq> set component"
      using component_closed_dfs [OF inv sym False run] .
    have "\<forall>c \<in> set (snd (visited', components @ [component])).
            \<forall>u \<in> set c. set (neighbors adj u) \<subseteq> set c"
      using Cons.prems(3) new st by auto
    from Cons.IH [OF step(1) nsI this rest] show ?thesis .
  qed
qed

text \<open>Every list that \<open>find_components\<close> returns is a connected component of the links.\<close>

lemma find_components_exact:
  assumes valid: "links_reference_nodes ns ls"
    and run: "find_components depth (build_adjacency ns ls) ns ([], []) = Inr (visited, components)"
    and c: "c \<in> set components"
  shows "c \<noteq> [] \<and> set c = {u. (hd c, u) \<in> (linked ls)\<^sup>*}"
proof -
  let ?adj = "build_adjacency ns ls" and ?I = "node_id ` set ns"
  have e: "edges ?adj = linked ls" using edges_build_adjacency_valid [OF valid] .
  have sym: "a \<in> set (neighbors ?adj b)" if "b \<in> set (neighbors ?adj a)" for a b
  proof -
    have "(a, b) \<in> linked ls" using that e by (auto simp: edges_def)
    then have "(b, a) \<in> linked ls" by (rule linked_sym)
    then show ?thesis using e by (auto simp: edges_def)
  qed
  from find_components_correct [OF comp_inv_init _ run, of ?I]
  have inv: "comp_inv ?adj ?I (visited, components)" by simp
  have closed: "\<forall>c \<in> set (snd (visited, components)). \<forall>u \<in> set c. set (neighbors ?adj u) \<subseteq> set c"
    by (rule find_components_closed [OF sym comp_inv_init _ _ run, of ?I]) simp_all
  have ne: "c \<noteq> []" and reach: "\<And>u. u \<in> set c \<Longrightarrow> (hd c, u) \<in> (edges ?adj)\<^sup>*"
    using inv c unfolding comp_inv_def fst_conv snd_conv by blast+
  have cl: "set (neighbors ?adj w) \<subseteq> set c" if "w \<in> set c" for w
    using closed c that by simp
  have "u \<in> set c" if "(hd c, u) \<in> (linked ls)\<^sup>*" for u
  proof -
    have "(hd c, u) \<in> (edges ?adj)\<^sup>*" using that e by simp
    moreover have "hd c \<in> set c" using ne by simp
    ultimately show ?thesis using cl by (rule closed_reach)
  qed
  then show ?thesis using ne reach e by auto
qed

section \<open>Facts about the breadth-first traversal\<close>

lemma hops_mono: "j \<le> k \<Longrightarrow> hops adj f j \<subseteq> hops adj f k"
proof (induction k)
  case 0
  then show ?case by simp
next
  case (Suc k)
  then show ?case by (cases "j = Suc k") auto
qed

lemma hops_step: "a \<in> hops adj f k \<Longrightarrow> set (neighbors adj a) \<subseteq> hops adj f (Suc k)"
  by auto

lemma visit_neighbors_result:
  "visit_neighbors d ns (v, h, q) = (v', h', q') \<Longrightarrow>
   \<exists>new. q' = q @ map (\<lambda>n. (n, Suc d)) new \<and> set new = set ns - set v
         \<and> set v' = set v \<union> set ns \<and> set h' = set h \<union> set new"
proof (induction ns arbitrary: v h q)
  case Nil
  then show ?case by simp
next
  case (Cons n ns)
  show ?case
  proof (cases "n \<in> set v")
    case True
    then have "visit_neighbors d ns (v, h, q) = (v', h', q')" using Cons.prems by simp
    from Cons.IH [OF this] obtain new where
      "q' = q @ map (\<lambda>n. (n, Suc d)) new" "set new = set ns - set v"
      "set v' = set v \<union> set ns" "set h' = set h \<union> set new" by blast
    then show ?thesis using True by (intro exI [of _ new]) auto
  next
    case False
    then have "visit_neighbors d ns (set_add n v, set_add n h, q @ [(n, d + 1)]) = (v', h', q')"
      using Cons.prems by simp
    from Cons.IH [OF this] obtain new where
      new: "q' = (q @ [(n, d + 1)]) @ map (\<lambda>n. (n, Suc d)) new"
        "set new = set ns - set (set_add n v)"
        "set v' = set (set_add n v) \<union> set ns" "set h' = set (set_add n h) \<union> set new" by blast
    show ?thesis
    proof (intro exI [of _ "n # new"] conjI)
      show "q' = q @ map (\<lambda>n. (n, Suc d)) (n # new)" using new(1) by simp
      show "set (n # new) = set (n # ns) - set v" using new(2) False by auto
      show "set v' = set v \<union> set (n # ns)" using new(3) by auto
      show "set h' = set h \<union> set (n # new)" using new(4) by auto
    qed
  qed
qed

lemma hops_self: "f \<in> hops adj f k"
  using hops_mono [of 0 k adj f] by simp

lemma bfs_inv_init: "bfs_inv adj f m ([f], [f], [(f, 0)])"
  by (simp add: bfs_inv_def hops_self)

declare hops.simps(2) [simp del]

lemma bfs_invI:
  assumes "set h = set v" and "f \<in> set v" and "set v \<subseteq> hops adj f m"
    and "\<And>u d. (u, d) \<in> set q \<Longrightarrow> u \<in> set v \<and> u \<in> hops adj f d
                                   \<and> (\<forall>j < d. u \<notin> hops adj f j) \<and> d \<le> m"
    and "sorted (map snd q)"
    and "\<And>u d. (u, d) \<in> set q \<Longrightarrow> d \<le> Suc (snd (hd q))"
    and "q \<noteq> [] \<Longrightarrow> hops adj f (snd (hd q)) \<subseteq> set v"
    and "\<And>w j. w \<in> set v \<Longrightarrow> w \<notin> fst ` set q \<Longrightarrow> j < m \<Longrightarrow> w \<in> hops adj f j \<Longrightarrow>
            set (neighbors adj w) \<subseteq> set v"
  shows "bfs_inv adj f m (v, h, q)"
  unfolding bfs_inv_def prod.case
proof (intro conjI)
  show "set h = set v" by (rule assms(1))
  show "f \<in> set v" by (rule assms(2))
  show "set v \<subseteq> hops adj f m" by (rule assms(3))
  show "\<forall>(u, d) \<in> set q. u \<in> set v \<and> u \<in> hops adj f d
                                   \<and> (\<forall>j < d. u \<notin> hops adj f j) \<and> d \<le> m"
  proof (intro ballI)
    fix x assume "x \<in> set q"
    then have "(fst x, snd x) \<in> set q" by simp
    from assms(4) [OF this]
    show "case x of (u, d) \<Rightarrow> u \<in> set v \<and> u \<in> hops adj f d
                                   \<and> (\<forall>j < d. u \<notin> hops adj f j) \<and> d \<le> m"
      by (simp add: split_beta)
  qed
  show "sorted (map snd q)" by (rule assms(5))
  show "\<forall>(u, d) \<in> set q. d \<le> Suc (snd (hd q))"
  proof (intro ballI)
    fix x assume "x \<in> set q"
    then have "(fst x, snd x) \<in> set q" by simp
    from assms(6) [OF this]
    show "case x of (u, d) \<Rightarrow> d \<le> Suc (snd (hd q))" by (simp add: split_beta)
  qed
  show "q \<noteq> [] \<longrightarrow> hops adj f (snd (hd q)) \<subseteq> set v" using assms(7) by (intro impI)
  show "\<forall>w \<in> set v. w \<notin> fst ` set q \<longrightarrow>
              (\<forall>j < m. w \<in> hops adj f j \<longrightarrow> set (neighbors adj w) \<subseteq> set v)"
    using assms(8) by (intro ballI impI allI)
qed

lemma bfs_invD:
  assumes "bfs_inv adj f m (v, h, q)"
  shows "set h = set v" and "f \<in> set v" and "set v \<subseteq> hops adj f m"
    and "\<And>u d. (u, d) \<in> set q \<Longrightarrow> u \<in> set v \<and> u \<in> hops adj f d
                                   \<and> (\<forall>j < d. u \<notin> hops adj f j) \<and> d \<le> m"
    and "sorted (map snd q)"
    and "\<And>u d. (u, d) \<in> set q \<Longrightarrow> d \<le> Suc (snd (hd q))"
    and "q \<noteq> [] \<Longrightarrow> hops adj f (snd (hd q)) \<subseteq> set v"
    and "\<And>w j. w \<in> set v \<Longrightarrow> w \<notin> fst ` set q \<Longrightarrow> j < m \<Longrightarrow> w \<in> hops adj f j \<Longrightarrow>
            set (neighbors adj w) \<subseteq> set v"
proof -
  note a = assms [unfolded bfs_inv_def prod.case]
  show "set h = set v" using a by (elim conjE)
  show "f \<in> set v" using a by (elim conjE)
  show "set v \<subseteq> hops adj f m" using a by (elim conjE)
  have 4: "\<forall>(u, d) \<in> set q. u \<in> set v \<and> u \<in> hops adj f d
                                   \<and> (\<forall>j < d. u \<notin> hops adj f j) \<and> d \<le> m"
    using a by (elim conjE)
  show "u \<in> set v \<and> u \<in> hops adj f d \<and> (\<forall>j < d. u \<notin> hops adj f j) \<and> d \<le> m"
    if "(u, d) \<in> set q" for u d
    using bspec [OF 4 that] by simp
  show "sorted (map snd q)" using a by (elim conjE)
  have 6: "\<forall>(u, d) \<in> set q. d \<le> Suc (snd (hd q))" using a by (elim conjE)
  show "d \<le> Suc (snd (hd q))" if "(u, d) \<in> set q" for u d
    using bspec [OF 6 that] by simp
  show "hops adj f (snd (hd q)) \<subseteq> set v" if "q \<noteq> []"
    using a that by (elim conjE) (erule (1) mp)
  have 8: "\<forall>w \<in> set v. w \<notin> fst ` set q \<longrightarrow>
              (\<forall>j < m. w \<in> hops adj f j \<longrightarrow> set (neighbors adj w) \<subseteq> set v)"
    using a by (elim conjE)
  show "set (neighbors adj w) \<subseteq> set v"
    if "w \<in> set v" "w \<notin> fst ` set q" "j < m" "w \<in> hops adj f j" for w j
    using bspec [OF 8 that(1)] that(2,3,4) by (elim impE allE) assumption+
qed

lemma sorted_hd_le: "sorted (map snd q) \<Longrightarrow> (u, d) \<in> set q \<Longrightarrow> snd (hd q) \<le> d"
  by (cases q) auto

lemma bfs_inv_skip:
  assumes inv: "bfs_inv adj f m (v, h, (cur, d) # q)" and skip: "m \<le> d"
  shows "bfs_inv adj f m (v, h, q)"
proof (rule bfs_invI)
  note D = bfs_invD [OF inv]
  have dm: "d = m" using D(4) [of cur d] skip by simp
  show "set h = set v" "f \<in> set v" "set v \<subseteq> hops adj f m" using D(1,2,3) .
  show "u \<in> set v \<and> u \<in> hops adj f e \<and> (\<forall>j < e. u \<notin> hops adj f j) \<and> e \<le> m"
    if "(u, e) \<in> set q" for u e
    using D(4) [of u e] that by simp
  show sorted: "sorted (map snd q)" using D(5) by simp
  have ge: "d \<le> e" if "(u, e) \<in> set q" for u e
    using D(5) that by force
  show "e \<le> Suc (snd (hd q))" if ue: "(u, e) \<in> set q" for u e
  proof -
    have "q \<noteq> []" using ue by auto
    then have "(fst (hd q), snd (hd q)) \<in> set q" by simp
    then have "d \<le> snd (hd q)" by (rule ge)
    moreover have "e \<le> Suc d" using D(6) [of u e] ue by simp
    ultimately show ?thesis by simp
  qed
  show "hops adj f (snd (hd q)) \<subseteq> set v" if ne: "q \<noteq> []"
  proof -
    have mem: "(fst (hd q), snd (hd q)) \<in> set q" using ne by simp
    have "d \<le> snd (hd q)" using mem by (rule ge)
    moreover have "snd (hd q) \<le> m" using D(4) [of "fst (hd q)" "snd (hd q)"] mem by simp
    ultimately have "snd (hd q) = d" using dm by simp
    then show ?thesis using D(7) by simp
  qed
  show "set (neighbors adj w) \<subseteq> set v"
    if w: "w \<in> set v" "w \<notin> fst ` set q" "j < m" "w \<in> hops adj f j" for w j
  proof (cases "w = cur")
    case True
    have "\<forall>j < d. cur \<notin> hops adj f j" using D(4) [of cur d] by simp
    then show ?thesis using True w(3,4) dm by simp
  next
    case False
    then have "w \<notin> fst ` set ((cur, d) # q)" using w(2) by simp
    from D(8) [OF w(1) this w(3,4)] show ?thesis .
  qed
qed

lemma bfs_inv_expand:
  assumes inv: "bfs_inv adj f m (v, h, (cur, d) # q)" and less: "d < m"
  shows "bfs_inv adj f m (visit_neighbors d (neighbors adj cur) (v, h, q))"
proof -
  note D = bfs_invD [OF inv]
  obtain v' h' q' where res: "visit_neighbors d (neighbors adj cur) (v, h, q) = (v', h', q')"
    by (cases "visit_neighbors d (neighbors adj cur) (v, h, q)") auto
  from visit_neighbors_result [OF res] obtain new where
    q': "q' = q @ map (\<lambda>n. (n, Suc d)) new"
    and new: "set new = set (neighbors adj cur) - set v"
    and v': "set v' = set v \<union> set (neighbors adj cur)"
    and h': "set h' = set h \<union> set new" by blast
  have cur: "cur \<in> set v" "cur \<in> hops adj f d" "\<forall>j < d. cur \<notin> hops adj f j"
    using D(4) [of cur d] by simp_all
  have front: "hops adj f d \<subseteq> set v" using D(7) by simp
  have nb: "set (neighbors adj cur) \<subseteq> hops adj f (Suc d)" using hops_step [OF cur(2)] .
  have ge: "d \<le> e" if "(u, e) \<in> set q" for u e using D(5) that by force
  have le: "e \<le> Suc d" if "(u, e) \<in> set q" for u e using D(6) [of u e] that by simp
  have mem: "(u, e) \<in> set q' \<longleftrightarrow> (u, e) \<in> set q \<or> (u \<in> set new \<and> e = Suc d)" for u e
    unfolding q' by auto
  have inv': "bfs_inv adj f m (v', h', q')"
  proof (rule bfs_invI)
    show "set h' = set v'" using h' v' new D(1) by auto
    show "f \<in> set v'" using v' D(2) by simp
    have "hops adj f (Suc d) \<subseteq> hops adj f m" using less by (intro hops_mono) simp
    then show "set v' \<subseteq> hops adj f m" using v' D(3) nb by auto
    show "u \<in> set v' \<and> u \<in> hops adj f e \<and> (\<forall>j < e. u \<notin> hops adj f j) \<and> e \<le> m"
      if ue: "(u, e) \<in> set q'" for u e
    proof (cases "(u, e) \<in> set q")
      case True
      then show ?thesis using D(4) [of u e] v' by simp
    next
      case False
      then have u: "u \<in> set new" and e: "e = Suc d" using ue mem by auto
      have "u \<notin> hops adj f j" if "j < Suc d" for j
      proof -
        have "hops adj f j \<subseteq> hops adj f d" using that by (intro hops_mono) simp
        then show ?thesis using front u new by auto
      qed
      then show ?thesis using u e new v' nb less by auto
    qed
    show "sorted (map snd q')"
    proof -
      have "map snd (map (\<lambda>n. (n, Suc d)) new) = replicate (length new) (Suc d)"
        by (induction new) simp_all
      then show ?thesis unfolding q' using D(5) le by (force simp: sorted_append)
    qed
    show "e \<le> Suc (snd (hd q'))" if ue: "(u, e) \<in> set q'" for u e
    proof -
      have "q' \<noteq> []" using ue by auto
      then have "(fst (hd q'), snd (hd q')) \<in> set q'" by simp
      then have "d \<le> snd (hd q')" using mem ge by (metis le_Suc_eq order_refl)
      moreover have "e \<le> Suc d" using ue mem le by auto
      ultimately show ?thesis by simp
    qed
    show "hops adj f (snd (hd q')) \<subseteq> set v'" if ne: "q' \<noteq> []"
    proof -
      have hd_mem: "(fst (hd q'), snd (hd q')) \<in> set q'" using ne by simp
      have all_ge: "snd (hd q') \<le> e" if "(u, e) \<in> set q'" for u e
        using \<open>sorted (map snd q')\<close> that by (rule sorted_hd_le)
      have range: "d \<le> snd (hd q')" "snd (hd q') \<le> Suc d"
        using hd_mem mem ge le by (metis le_Suc_eq order_refl)+
      show ?thesis
      proof (cases "snd (hd q') = d")
        case True
        then show ?thesis using front v' by auto
      next
        case False
        then have top: "snd (hd q') = Suc d" using range by simp
        have "u \<in> set v'" if u: "u \<in> hops adj f (Suc d)" for u
        proof (cases "u \<in> hops adj f d")
          case True
          then show ?thesis using front v' by auto
        next
          case False
          then obtain a where a: "a \<in> hops adj f d" "u \<in> set (neighbors adj a)"
            using u by (auto simp: hops.simps(2))
          show ?thesis
          proof (cases "a = cur")
            case True
            then show ?thesis using a(2) v' by simp
          next
            case False
            have "a \<notin> fst ` set q"
            proof
              assume "a \<in> fst ` set q"
              then obtain e where ae: "(a, e) \<in> set q" by auto
              then have "(a, e) \<in> set q'" using mem by simp
              then have "Suc d \<le> e" using all_ge top by simp
              then have "a \<notin> hops adj f d" using D(4) [of a e] ae by simp
              then show False using a(1) by simp
            qed
            then have "a \<notin> fst ` set ((cur, d) # q)" using False by simp
            moreover have "a \<in> set v" using a(1) front by auto
            ultimately have "set (neighbors adj a) \<subseteq> set v" using D(8) less a(1) by blast
            then show ?thesis using a(2) v' by auto
          qed
        qed
        then show ?thesis using top by auto
      qed
    qed
    show "set (neighbors adj w) \<subseteq> set v'"
      if w: "w \<in> set v'" "w \<notin> fst ` set q'" "j < m" "w \<in> hops adj f j" for w j
    proof -
      have notnew: "w \<notin> set new" using w(2) unfolding q' by force
      then have wv: "w \<in> set v" using w(1) v' new by auto
      have wq: "w \<notin> fst ` set q" using w(2) unfolding q' by auto
      show ?thesis
      proof (cases "w = cur")
        case True
        then show ?thesis using v' by simp
      next
        case False
        then have "w \<notin> fst ` set ((cur, d) # q)" using wq by simp
        from D(8) [OF wv this w(3,4)] show ?thesis using v' by auto
      qed
    qed
  qed
  then show ?thesis using res by simp
qed

lemma bfs_keeps_inv:
  "bfs_inv adj f m st \<Longrightarrow> \<exists>v h. bfs adj m st = (v, h, []) \<and> bfs_inv adj f m (v, h, [])"
proof (induction adj m st rule: bfs.induct)
  case (1 neighborMap maxDepth visited highlightedNodes)
  then show ?case by simp
next
  case (2 neighborMap maxDepth visited highlightedNodes current depth queue)
  show ?case
  proof (cases "maxDepth \<le> depth")
    case True
    from "2.IH"(1) [OF True bfs_inv_skip [OF "2.prems" True]] True show ?thesis by simp
  next
    case False
    then have less: "depth < maxDepth" by simp
    from "2.IH"(2) [OF False bfs_inv_expand [OF "2.prems" less]] False show ?thesis by simp
  qed
qed

lemma bfs_inv_final:
  assumes "bfs_inv adj f m (v, h, [])"
  shows "set h = hops adj f m"
proof -
  note D = bfs_invD [OF assms]
  have "k \<le> m \<Longrightarrow> hops adj f k \<subseteq> set v" for k
  proof (induction k)
    case 0
    then show ?case using D(2) by simp
  next
    case (Suc k)
    then have ih: "hops adj f k \<subseteq> set v" and k: "k < m" by simp_all
    have "set (neighbors adj a) \<subseteq> set v" if "a \<in> hops adj f k" for a
      using D(8) [of a k] that ih k by auto
    then show ?case using ih by (auto simp: hops.simps(2))
  qed
  then have "hops adj f m \<subseteq> set v" by simp
  then show ?thesis using D(1,3) by simp
qed

lemma bfs_highlights_hops:
  "bfs adj m ([f], [f], [(f, 0)]) = (v, h, q) \<Longrightarrow> set h = hops adj f m \<and> q = []"
proof -
  assume run: "bfs adj m ([f], [f], [(f, 0)]) = (v, h, q)"
  have "bfs_inv adj f m ([f], [f], [(f, 0)])" by (rule bfs_inv_init)
  from bfs_keeps_inv [OF this] obtain v' h' where
    r: "bfs adj m ([f], [f], [(f, 0)]) = (v', h', [])" and i: "bfs_inv adj f m (v', h', [])" by blast
  have "set h' = hops adj f m" using i by (rule bfs_inv_final)
  then show ?thesis using run r by simp
qed

lemma hops_within_hops:
  assumes "links_reference_nodes ns ls"
  shows "hops (build_adjacency ns ls) f k = within_hops ls f k"
proof (induction k)
  case 0
  then show ?case by (simp add: within_hops_def)
next
  case (Suc k)
  have e: "edges (build_adjacency ns ls) = linked ls"
    using edges_build_adjacency_valid [OF assms] .
  have nb: "b \<in> set (neighbors (build_adjacency ns ls) a) \<longleftrightarrow> (a, b) \<in> linked ls" for a b
    using e by (auto simp: edges_def)
  show ?case
  proof (intro equalityI subsetI)
    fix v assume "v \<in> hops (build_adjacency ns ls) f (Suc k)"
    then consider "v \<in> within_hops ls f k"
      | a where "a \<in> within_hops ls f k" "(a, v) \<in> linked ls"
      using Suc nb by (auto simp: hops.simps(2))
    then show "v \<in> within_hops ls f (Suc k)"
    proof cases
      case 1
      then show ?thesis by (auto simp: within_hops_def intro: le_SucI)
    next
      case 2
      then obtain j where "j \<le> k" "(f, a) \<in> linked ls ^^ j" by (auto simp: within_hops_def)
      then have "Suc j \<le> Suc k" "(f, v) \<in> linked ls ^^ Suc j" using 2(2) by auto
      then show ?thesis unfolding within_hops_def by blast
    qed
  next
    fix v assume "v \<in> within_hops ls f (Suc k)"
    then obtain j where j: "j \<le> Suc k" "(f, v) \<in> linked ls ^^ j" by (auto simp: within_hops_def)
    show "v \<in> hops (build_adjacency ns ls) f (Suc k)"
    proof (cases j)
      case 0
      then have "v \<in> within_hops ls f k" using j by (auto simp: within_hops_def)
      then show ?thesis using Suc by (simp add: hops.simps(2))
    next
      case (Suc i)
      then obtain a where a: "(f, a) \<in> linked ls ^^ i" "(a, v) \<in> linked ls" using j(2) by auto
      have "a \<in> within_hops ls f k" using a(1) j(1) Suc unfolding within_hops_def by auto
      then show ?thesis using a(2) nb \<open>hops (build_adjacency ns ls) f k = within_hops ls f k\<close>
        by (auto simp: hops.simps(2))
    qed
  qed
qed

lemma set_highlight_links_aux:
  "set (fold (\<lambda>(link, index) highlightedLinks.
             if test link then set_add (link_name index) highlightedLinks else highlightedLinks)
          xs acc)
   = set acc \<union> {link_name i | l i. (l, i) \<in> set xs \<and> test l}"
proof (induction xs arbitrary: acc)
  case Nil
  then show ?case by simp
next
  case (Cons x xs)
  obtain l i where x: "x = (l, i)" by (cases x)
  show ?case unfolding x by (simp add: Cons.IH) blast
qed

lemma set_highlight_links:
  "set (highlight_links test ls) = {link_name i | i. i < length ls \<and> test (ls ! i)}"
proof -
  have "(l, i) \<in> set (zip ls [0 ..< length ls]) \<longleftrightarrow> i < length ls \<and> l = ls ! i" for l i
    by (auto simp: set_zip)
  then show ?thesis unfolding highlight_links_def set_highlight_links_aux by auto
qed

lemma pathway_highlight_general:
  assumes "links_reference_nodes (nodes d) (links d)"
  shows "set (hl_nodes (highlightState d (useNeighborMap d) True m (Some node)))
           = within_hops (links d) (node_id node) m"
    and "set (hl_links (highlightState d (useNeighborMap d) True m (Some node)))
           = {link_name i | i. i < length (links d)
                 \<and> sourceId (links d ! i) \<in> within_hops (links d) (node_id node) m
                 \<and> targetId (links d ! i) \<in> within_hops (links d) (node_id node) m}"
proof -
  obtain v h q where run: "bfs (useNeighborMap d) m ([node_id node], [node_id node], [(node_id node, 0)])
      = (v, h, q)" by (metis prod_cases3)
  from bfs_highlights_hops [OF run]
  have h: "set h = within_hops (links d) (node_id node) m"
    using hops_within_hops [OF assms] by (simp add: useNeighborMap_def)
  show "set (hl_nodes (highlightState d (useNeighborMap d) True m (Some node)))
           = within_hops (links d) (node_id node) m"
    using run h by (simp add: highlightState_def)
  show "set (hl_links (highlightState d (useNeighborMap d) True m (Some node)))
           = {link_name i | i. i < length (links d)
                 \<and> sourceId (links d ! i) \<in> within_hops (links d) (node_id node) m
                 \<and> targetId (links d ! i) \<in> within_hops (links d) (node_id node) m}"
    using run h by (simp add: highlightState_def set_highlight_links)
qed

section \<open>Facts about the graph analytics\<close>

lemma map_checked_Inr:
  "(\<And>x. x \<in> set xs \<Longrightarrow> f x = Inr (g x)) \<Longrightarrow> map_checked f xs = Inr (map g xs)"
  by (induction xs) simp_all

lemma Math_max_in: "xs \<noteq> [] \<Longrightarrow> Math_max xs \<in> set xs"
proof -
  assume "xs \<noteq> []"
  then obtain x ys where xs: "xs = x # ys" by (cases xs) auto
  have "Math_max xs = Max (set xs)"
    unfolding xs Math_max_def using Max.set_eq_fold [of x ys] by simp
  then show ?thesis using \<open>xs \<noteq> []\<close> by (metis List.finite_set Max_in set_empty)
qed

lemma Math_max_const: "xs \<noteq> [] \<Longrightarrow> \<forall>x \<in> set xs. x = c \<Longrightarrow> Math_max xs = c"
  using Math_max_in [of xs] by auto

lemma Math_min_in: "xs \<noteq> [] \<Longrightarrow> Math_min xs \<in> set xs"
proof -
  assume "xs \<noteq> []"
  then obtain x ys where xs: "xs = x # ys" by (cases xs) auto
  have "Math_min xs = Min (set xs)"
    unfolding xs Math_min_def using Min.set_eq_fold [of x ys] by simp
  then show ?thesis using \<open>xs \<noteq> []\<close> by (metis List.finite_set Min_in set_empty)
qed

lemma Math_min_const: "xs \<noteq> [] \<Longrightarrow> \<forall>x \<in> set xs. x = c \<Longrightarrow> Math_min xs = c"
  using Math_min_in [of xs] by auto

lemma calculateLinkWeights_total: "calculateLinkWeights ls = Inr (map (rescale ls) ls)"
  unfolding calculateLinkWeights_def Let_def
  by (rule map_checked_Inr) (simp add: rescale_def divide_checked_def Let_def)

lemma rescale_ends [simp]:
  "sourceId (rescale ls l) = sourceId l" "targetId (rescale ls l) = targetId l"
  by (simp_all add: rescale_def sourceId_def targetId_def Let_def)

lemma calculateLinkWeights_equal:
  assumes "\<forall>l \<in> set ls. link_value l = c"
  shows "calculateLinkWeights ls = Inr (map (\<lambda>l. l\<lparr>link_value := 1\<rparr>) ls)"
proof (cases ls)
  case Nil
  then show ?thesis by (simp add: calculateLinkWeights_def)
next
  case (Cons l ls')
  then have ne: "map link_value ls \<noteq> []" by simp
  have all: "\<forall>x \<in> set (map link_value ls). x = c" using assms by auto
  have "Math_max (map link_value ls) - Math_min (map link_value ls) = 0"
    using Math_max_const [OF ne all] Math_min_const [OF ne all] by simp
  then have "rescale ls l = l\<lparr>link_value := 1\<rparr>" for l
    by (simp add: rescale_def)
  then show ?thesis unfolding calculateLinkWeights_total by simp
qed

lemma update_member:
  "p \<in> set (AList.update k v m) \<Longrightarrow> p = (k, v) \<or> p \<in> set m"
  by (induction m) (auto split: if_splits)

lemma update_nonempty [simp]: "AList.update k v m \<noteq> []"
  by (cases m) auto

lemma forEach_inv:
  assumes "P s" and "\<And>x s. x \<in> set xs \<Longrightarrow> P s \<Longrightarrow> \<exists>s'. f x s = Inr s' \<and> P s'"
  shows "\<exists>s'. forEach f xs s = Inr s' \<and> P s'"
  using assms
proof (induction xs arbitrary: s)
  case Nil
  then show ?case by simp
next
  case (Cons x xs)
  from Cons.prems(2) [of x s] Cons.prems(1) obtain s1 where s1: "f x s = Inr s1" "P s1" by auto
  from Cons.IH [OF s1(2)] Cons.prems(2) obtain s' where "forEach f xs s1 = Inr s'" "P s'"
    by (metis list.set_intros(2))
  then show ?case using s1 by simp
qed

lemma all_update:
  "\<forall>p \<in> set m. G (snd p) \<Longrightarrow> G v \<Longrightarrow> \<forall>p \<in> set (AList.update k v m). G (snd p)"
  using update_member [of _ k v m] by fastforce

lemma map_of_all: "\<forall>p \<in> set m. G (snd p) \<Longrightarrow> map_of m k = Some v \<Longrightarrow> G v"
  by (drule map_of_SomeD) fastforce

lemma nodeMap_nonneg:
  assumes "\<forall>l \<in> set ls. 0 \<le> link_value l"
  shows "\<forall>p \<in> set (nodeMap_of ns ls). 0 \<le> fst (snd p) \<and> 0 \<le> snd (snd p)"
proof -
  define G where "G io \<longleftrightarrow> 0 \<le> fst io \<and> 0 \<le> snd io" for io :: "real \<times> real"
  let ?good = "\<lambda>m :: degrees. \<forall>p \<in> set m. G (snd p)"
  have init: "?good m \<Longrightarrow> ?good (fold (\<lambda>n m. AList.update (node_id n) (0, 0) m) ns m)" for m
  proof (induction ns arbitrary: m)
    case Nil
    then show ?case by simp
  next
    case (Cons n ns)
    have "?good (AList.update (node_id n) (0, 0) m)"
      by (rule all_update [OF Cons.prems]) (simp add: G_def)
    from Cons.IH [OF this] show ?case by simp
  qed
  have step: "?good (add_degrees l m)" if good: "?good m" and v: "0 \<le> link_value l" for l m
  proof -
    let ?m1 = "case map_of m (sourceId l) of None \<Rightarrow> m
                | Some (i, out) \<Rightarrow> AList.update (sourceId l) (i, out + link_value l) m"
    have g1: "?good ?m1"
    proof (cases "map_of m (sourceId l)")
      case None
      then show ?thesis using good by simp
    next
      case (Some io)
      have "G io" using map_of_all [OF good Some] .
      then have "G (fst io, snd io + link_value l)" using v by (simp add: G_def)
      from all_update [OF good this] show ?thesis using Some by (simp add: split_beta)
    qed
    show ?thesis
    proof (cases "map_of ?m1 (targetId l)")
      case None
      then show ?thesis using g1 by (simp add: add_degrees_def Let_def)
    next
      case (Some io)
      have "G io" using map_of_all [OF g1 Some] .
      then have "G (fst io + link_value l, snd io)" using v by (simp add: G_def)
      from all_update [OF g1 this] show ?thesis
        using Some by (simp add: add_degrees_def Let_def split_beta)
    qed
  qed
  have links: "?good m \<Longrightarrow> \<forall>l \<in> set ls. 0 \<le> link_value l \<Longrightarrow> ?good (fold add_degrees ls m)" for m
  proof (induction ls arbitrary: m)
    case Nil
    then show ?case by simp
  next
    case (Cons l ls)
    have "?good (add_degrees l m)" by (rule step) (use Cons.prems in simp_all)
    from Cons.IH [OF this] Cons.prems(2) show ?case by simp
  qed
  have "?good (fold (\<lambda>n m. AList.update (node_id n) (0, 0) m) ns [])" by (rule init) simp
  from links [OF this assms] show ?thesis by (simp add: nodeMap_of_def G_def)
qed


lemma out_or_1_positive:
  "\<forall>p \<in> set m. 0 \<le> fst (snd p) \<and> 0 \<le> snd (snd p) \<Longrightarrow> 0 < out_or_1 m k"
proof -
  assume good: "\<forall>p \<in> set m. 0 \<le> fst (snd p) \<and> 0 \<le> snd (snd p)"
  show ?thesis
  proof (cases "map_of m k")
    case None
    then show ?thesis by (simp add: out_or_1_def)
  next
    case (Some io)
    have "0 \<le> fst io \<and> 0 \<le> snd io"
      using map_of_all [of m "\<lambda>io. 0 \<le> fst io \<and> 0 \<le> snd io", OF good Some] .
    then show ?thesis using Some by (cases io) (auto simp: out_or_1_def)
  qed
qed

lemma rank_or_0_nonneg: "\<forall>p \<in> set pr. 0 < snd p \<Longrightarrow> 0 \<le> rank_or_0 pr k"
proof -
  assume pos: "\<forall>p \<in> set pr. 0 < snd p"
  show ?thesis
  proof (cases "map_of pr k")
    case None
    then show ?thesis by (simp add: rank_or_0_def)
  next
    case (Some r)
    have "0 < r" using map_of_all [of pr "\<lambda>r. 0 < r", OF pos Some] .
    then show ?thesis using Some by (simp add: rank_or_0_def)
  qed
qed

lemma new_rank_positive:
  assumes node: "node \<in> set ns"
    and weights: "\<forall>l \<in> set ls. 0 \<le> link_value l"
    and ranks: "\<forall>p \<in> set pageRanks. 0 < snd p"
    and new: "\<forall>p \<in> set newRanks. 0 < snd p"
  shows "\<exists>nr. new_rank ns ls (nodeMap_of ns ls) pageRanks node newRanks = Inr nr
              \<and> (\<forall>p \<in> set nr. 0 < snd p) \<and> nr \<noteq> []"
proof -
  let ?m = "nodeMap_of ns ls"
  let ?f = "\<lambda>link rankSum.
              case divide_checked (rank_or_0 pageRanks (sourceId link) * link_value link)
                                  (out_or_1 ?m (sourceId link)) of
                Inl e \<Rightarrow> Inl e
              | Inr share \<Rightarrow> Inr (rankSum + share)"
  let ?incoming = "filter (\<lambda>l. targetId l = node_id node) ls"
  have pos: "0 < out_or_1 ?m k" for k
    using out_or_1_positive [OF nodeMap_nonneg [OF weights]] .
  have "\<exists>s'. forEach ?f ?incoming 0 = Inr s' \<and> 0 \<le> s'"
  proof (rule forEach_inv [where P = "\<lambda>s. 0 \<le> s"])
    show "(0::real) \<le> 0" by simp
    fix link and s :: real
    assume l: "link \<in> set ?incoming" and s: "0 \<le> s"
    have "0 \<le> rank_or_0 pageRanks (sourceId link) * link_value link"
      using rank_or_0_nonneg [OF ranks] weights l by simp
    then have "0 \<le> rank_or_0 pageRanks (sourceId link) * link_value link
                      / out_or_1 ?m (sourceId link)"
      using pos [of "sourceId link"] by simp
    then show "\<exists>s'. ?f link s = Inr s' \<and> 0 \<le> s'"
      using s pos [of "sourceId link"] by (simp add: divide_checked_def)
  qed
  then obtain rankSum where sum: "forEach ?f ?incoming 0 = Inr rankSum" "0 \<le> rankSum" by blast
  have n: "0 < real (length ns)" using node by (cases ns) auto
  then have base: "divide_checked (1 - dampingFactor) (real (length ns))
      = Inr ((1 - dampingFactor) / real (length ns))"
    by (simp add: divide_checked_def)
  let ?r = "(1 - dampingFactor) / real (length ns) + dampingFactor * rankSum"
  have "0 < (1 - dampingFactor) / real (length ns)" using n by (simp add: dampingFactor_def)
  moreover have "0 \<le> dampingFactor * rankSum" using sum(2) by (simp add: dampingFactor_def)
  ultimately have r: "0 < ?r" by linarith
  have res: "new_rank ns ls ?m pageRanks node newRanks = Inr (AList.update (node_id node) ?r newRanks)"
    using sum(1) base by (simp add: new_rank_def Let_def)
  have "\<forall>p \<in> set (AList.update (node_id node) ?r newRanks). 0 < snd p"
    by (rule all_update [OF new r])
  then show ?thesis using res by simp
qed

lemma round_positive:
  assumes weights: "\<forall>l \<in> set ls. 0 \<le> link_value l"
    and ranks: "\<forall>p \<in> set pageRanks. 0 < snd p"
  shows "\<exists>nr. forEach (new_rank ns ls (nodeMap_of ns ls) pageRanks) ns [] = Inr nr
              \<and> (\<forall>p \<in> set nr. 0 < snd p) \<and> (ns \<noteq> [] \<longrightarrow> nr \<noteq> [])"
proof (cases ns)
  case Nil
  then show ?thesis by simp
next
  case (Cons n rest)
  let ?f = "new_rank ns ls (nodeMap_of ns ls) pageRanks"
  have step: "\<exists>s'. ?f x s = Inr s' \<and> ((\<forall>p \<in> set s'. 0 < snd p) \<and> s' \<noteq> [])"
    if "x \<in> set ns" "\<forall>p \<in> set s. 0 < snd p" for x and s :: "(string \<times> real) list"
    using new_rank_positive [OF that(1) weights ranks that(2)] .
  have "n \<in> set ns" using Cons by simp
  from step [OF this, of "[]"] obtain s1 where s1: "?f n [] = Inr s1" "\<forall>p \<in> set s1. 0 < snd p" "s1 \<noteq> []"
    by auto
  have "\<exists>s'. forEach ?f rest s1 = Inr s' \<and> ((\<forall>p \<in> set s'. 0 < snd p) \<and> s' \<noteq> [])"
  proof (rule forEach_inv [where P = "\<lambda>s. (\<forall>p \<in> set s. 0 < snd p) \<and> s \<noteq> []"])
    show "(\<forall>p \<in> set s1. 0 < snd p) \<and> s1 \<noteq> []" using s1 by simp
    fix x and s :: "(string \<times> real) list"
    assume "x \<in> set rest" "(\<forall>p \<in> set s. 0 < snd p) \<and> s \<noteq> []"
    then show "\<exists>s'. ?f x s = Inr s' \<and> ((\<forall>p \<in> set s'. 0 < snd p) \<and> s' \<noteq> [])"
      using step [of x s] Cons by simp
  qed
  then show ?thesis using s1(1) Cons by auto
qed

lemma iterate_ranks_positive:
  assumes weights: "\<forall>l \<in> set ls. 0 \<le> link_value l"
  shows "(\<forall>p \<in> set pageRanks. 0 < snd p) \<Longrightarrow> (ns \<noteq> [] \<longrightarrow> pageRanks \<noteq> []) \<Longrightarrow>
         \<exists>pr. iterate_ranks i ns ls (nodeMap_of ns ls) pageRanks = Inr pr
              \<and> (\<forall>p \<in> set pr. 0 < snd p) \<and> (ns \<noteq> [] \<longrightarrow> pr \<noteq> [])"
proof (induction i arbitrary: pageRanks)
  case 0
  then show ?case by simp
next
  case (Suc i)
  from round_positive [OF weights Suc.prems(1), of ns] obtain nr where
    nr: "forEach (new_rank ns ls (nodeMap_of ns ls) pageRanks) ns [] = Inr nr"
      "\<forall>p \<in> set nr. 0 < snd p" "ns \<noteq> [] \<longrightarrow> nr \<noteq> []" by blast
  from Suc.IH [OF nr(2,3)] show ?case using nr(1) by simp
qed

lemma initial_ranks_positive:
  "\<exists>pr. initial_ranks ns = Inr pr \<and> (\<forall>p \<in> set pr. 0 < snd p) \<and> (ns \<noteq> [] \<longrightarrow> pr \<noteq> [])"
proof (cases ns)
  case Nil
  then show ?thesis by (simp add: initial_ranks_def)
next
  case (Cons n rest)
  let ?f = "\<lambda>node pageRanks.
                case divide_checked 1 (real (length ns)) of
                  Inl e \<Rightarrow> Inl e
                | Inr r \<Rightarrow> Inr (AList.update (node_id node) r pageRanks)"
  have len: "0 < real (length ns)" using Cons by simp
  have step: "\<exists>s'. ?f x s = Inr s' \<and> ((\<forall>p \<in> set s'. 0 < snd p) \<and> s' \<noteq> [])"
    if "\<forall>p \<in> set s. 0 < snd p" for x and s :: "(string \<times> real) list"
  proof -
    have "\<forall>p \<in> set (AList.update (node_id x) (1 / real (length ns)) s). 0 < snd p"
      by (rule all_update [OF that]) (use len in simp)
    then show ?thesis using len by (simp add: divide_checked_def)
  qed
  from step [of "[]" n] obtain s1 where s1: "?f n [] = Inr s1" "\<forall>p \<in> set s1. 0 < snd p" "s1 \<noteq> []"
    by auto
  have "\<exists>s'. forEach ?f rest s1 = Inr s' \<and> ((\<forall>p \<in> set s'. 0 < snd p) \<and> s' \<noteq> [])"
  proof (rule forEach_inv [where P = "\<lambda>s. (\<forall>p \<in> set s. 0 < snd p) \<and> s \<noteq> []"])
    show "(\<forall>p \<in> set s1. 0 < snd p) \<and> s1 \<noteq> []" using s1 by simp
    fix x :: Node and s :: "(string \<times> real) list"
    assume "(\<forall>p \<in> set s. 0 < snd p) \<and> s \<noteq> []"
    then show "\<exists>s'. ?f x s = Inr s' \<and> ((\<forall>p \<in> set s'. 0 < snd p) \<and> s' \<noteq> [])"
      using step [of s x] by simp
  qed
  then show ?thesis using s1(1) Cons by (auto simp: initial_ranks_def)
qed

lemma calculateCentrality_total:
  assumes weights: "\<forall>l \<in> set ls. 0 \<le> link_value l"
  shows "\<exists>\<rho>. calculateCentrality ns ls = Inr (map (with_rank \<rho>) ns)"
proof -
  from initial_ranks_positive [of ns] obtain pr0 where
    pr0: "initial_ranks ns = Inr pr0" "\<forall>p \<in> set pr0. 0 < snd p" "ns \<noteq> [] \<longrightarrow> pr0 \<noteq> []" by blast
  from iterate_ranks_positive [OF weights pr0(2,3)] obtain pr where
    pr: "iterate_ranks iterations ns ls (nodeMap_of ns ls) pr0 = Inr pr"
      "\<forall>p \<in> set pr. 0 < snd p" "ns \<noteq> [] \<longrightarrow> pr \<noteq> []" by blast
  let ?maxRank = "Math_max (map snd pr)"
  let ?\<rho> = "\<lambda>node. rank_or_0 pr (node_id node) / ?maxRank"
  let ?f = "\<lambda>node. case divide_checked (rank_or_0 pr (node_id node)) ?maxRank of
                            Inl e \<Rightarrow> Inl e
                          | Inr r \<Rightarrow> Inr (node\<lparr>node_pageRank := Some r,
                                                 node_size := Some (5 + r * 25)\<rparr>)"
  have "map_checked ?f ns = Inr (map (with_rank ?\<rho>) ns)"
  proof (rule map_checked_Inr)
    fix x assume "x \<in> set ns"
    then have "map snd pr \<noteq> []" using pr(3) by auto
    from Math_max_in [OF this] have "0 < ?maxRank" using pr(2) by auto
    then show "?f x = Inr (with_rank ?\<rho> x)" by (simp add: divide_checked_def with_rank_def)
  qed
  then have "calculateCentrality ns ls = Inr (map (with_rank ?\<rho>) ns)"
    using pr0(1) pr(1) by (simp add: calculateCentrality_def Let_def)
  then show ?thesis by blast
qed

lemma assign_fault:
  "assignCommunity k adj v c st = Inl e \<longrightarrow> e = StackExhausted"
  "assign_each k adj vs c st = Inl e \<longrightarrow> e = StackExhausted"
proof (induction k adj v c st and k adj vs c st rule: assignCommunity_assign_each.induct)
  case (1 adj nodeId communityId st)
  then show ?case by simp
next
  case (2 depth adj nodeId communityId visited communities)
  then show ?case by simp
next
  case (3 depth adj communityId st)
  then show ?case by simp
next
  case (4 depth adj neighbor rest communityId visited communities)
  show ?case
  proof (cases "neighbor \<in> set visited")
    case True
    then show ?thesis using "4.IH"(3) by simp
  next
    case False
    show ?thesis
    proof (cases "assignCommunity depth adj neighbor communityId (visited, communities)")
      case (Inl e')
      then show ?thesis using "4.IH"(1) False by simp
    next
      case (Inr st')
      then show ?thesis using "4.IH"(2) [OF False Inr] False by simp
    qed
  qed
qed

lemma assign_all_fault:
  "assign_all k adj ns c st = Inl e \<Longrightarrow> e = StackExhausted"
proof (induction ns arbitrary: c st)
  case Nil
  then show ?case by (cases st) simp
next
  case (Cons n ns)
  obtain visited communities where st: "st = (visited, communities)" by (cases st)
  show ?case
  proof (cases "node_id n \<in> set visited")
    case True
    then show ?thesis using Cons st by simp
  next
    case False
    show ?thesis
    proof (cases "assignCommunity k adj (node_id n) c (visited, communities)")
      case (Inl e')
      then show ?thesis using Cons.prems st False assign_fault(1) [of k adj "node_id n" c "(visited, communities)" e']
        by simp
    next
      case (Inr st')
      then show ?thesis using Cons.prems st False Cons.IH [of "c + 1" st'] by simp
    qed
  qed
qed

lemma assign_all_ids:
  "map node_id ns = map node_id ns' \<Longrightarrow> assign_all k adj ns c st = assign_all k adj ns' c st"
proof (induction ns arbitrary: ns' c st)
  case Nil
  then show ?case by simp
next
  case (Cons n ns)
  then obtain n' rest' where ns': "ns' = n' # rest'" and id: "node_id n = node_id n'"
    and rest: "map node_id ns = map node_id rest'" by (cases ns') auto
  obtain visited communities where st: "st = (visited, communities)" by (cases st)
  show ?case unfolding ns' st using id Cons.IH [OF rest]
    by (simp split: sum.splits)
qed

lemma build_adjacency_ids:
  assumes "map node_id ns = map node_id ns'"
    and "map sourceId ls = map sourceId ls'" and "map targetId ls = map targetId ls'"
  shows "build_adjacency ns ls = build_adjacency ns' ls'"
proof -
  have "fold (\<lambda>n m. AList.update (node_id n) [] m) ns m0
          = fold (\<lambda>i m. AList.update i [] m) (map node_id ns) m0" for ns :: "Node list" and m0 :: adjacency
    by (simp add: fold_map comp_def)
  then have init: "init_adjacency ns = init_adjacency ns'"
    using assms(1) by (simp add: init_adjacency_def)
  have "fold add_link ls m = fold add_link ls' m" for m
    using assms(2,3)
  proof (induction ls arbitrary: ls' m)
    case Nil
    then show ?case by simp
  next
    case (Cons l ls)
    then obtain l' rest' where ls': "ls' = l' # rest'" and e: "sourceId l = sourceId l'" "targetId l = targetId l'"
      and r: "map sourceId ls = map sourceId rest'" "map targetId ls = map targetId rest'"
      by (cases ls') auto
    have "add_link l m = add_link l' m" using e by (simp add: add_link_def)
    then show ?case unfolding ls' using Cons.IH [OF r] by simp
  qed
  then show ?thesis using init by (simp add: build_adjacency_def)
qed

lemma with_rank_sel [simp]:
  "node_id (with_rank \<rho> n) = node_id n" "node_group (with_rank \<rho> n) = node_group n"
  by (simp_all add: with_rank_def)

lemma detectCommunities_enriched:
  "detectCommunities k (map (with_rank \<rho>) ns) (map (rescale ls) ls) = detectCommunities k ns ls"
proof -
  have ids: "map node_id (map (with_rank \<rho>) ns) = map node_id ns" by simp
  have "build_adjacency (map (with_rank \<rho>) ns) (map (rescale ls) ls) = build_adjacency ns ls"
    by (rule build_adjacency_ids) simp_all
  then show ?thesis using assign_all_ids [OF ids] by (simp add: detectCommunities_def)
qed

lemma community_or_group_with_rank [simp]:
  "community_or_group comm (with_rank \<rho> n) = community_or_group comm n"
  by (simp add: community_or_group_def split: option.splits)

text \<open>\<open>analyzeGraph\<close> in one equation, for link weights that are not negative.\<close>

lemma analyzeGraph_eq:
  assumes "\<forall>l \<in> set (links d). 0 \<le> link_value l"
  shows "\<exists>\<rho>. analyzeGraph k d =
      (case detectCommunities k (nodes d) (links d) of
         Inl e \<Rightarrow> Inl e
       | Inr comm \<Rightarrow>
           Inr \<lparr>nodes = map (\<lambda>n. (with_rank \<rho> n)\<lparr>node_group := community_or_group comm n\<rparr>) (nodes d),
                links = map (rescale (links d)) (links d)\<rparr>)"
proof -
  from calculateCentrality_total [OF assms] obtain \<rho> where
    c: "calculateCentrality (nodes d) (links d) = Inr (map (with_rank \<rho>) (nodes d))" by blast
  have "analyzeGraph k d =
      (case detectCommunities k (nodes d) (links d) of
         Inl e \<Rightarrow> Inl e
       | Inr comm \<Rightarrow>
           Inr \<lparr>nodes = map (\<lambda>n. (with_rank \<rho> n)\<lparr>node_group := community_or_group comm n\<rparr>) (nodes d),
                links = map (rescale (links d)) (links d)\<rparr>)"
    unfolding analyzeGraph_def c calculateLinkWeights_total
    by (simp add: detectCommunities_enriched comp_def split: sum.splits)
  then show ?thesis by blast
qed

section \<open>Facts about rounding\<close>






lemma round_half_even_int [simp]: "round_half_even (of_int n) = n"
  by (simp add: round_half_even_def)

lemma round_double_0 [simp]: "round_double 0 = 0"
  by (simp add: round_double_def)









section \<open>Facts about the rounded ranks\<close>





















section \<open>Facts about the sum of the ranks in exact arithmetic\<close>









lemma out_weight_nonneg: "\<forall>l \<in> set ls. 0 \<le> link_value l \<Longrightarrow> 0 \<le> out_weight ls k"
  unfolding out_weight_def by (rule sum_list_nonneg) auto







section \<open>Facts about the two instances of the rounded ranks\<close>
















section \<open>Claims\<close>

text \<open>
  Claim C8.  For a graph whose link ends are all ids of nodes of the node list, the map
  built by \<^verbatim>\<open>useNeighborMap\<close> is symmetric: \<open>b\<close> is a neighbour of \<open>a\<close> exactly when
  \<open>a\<close> is a neighbour of \<open>b\<close>.
\<close>

theorem useNeighborMap_symmetric:
  assumes "links_reference_nodes (nodes d) (links d)"
  shows "b \<in> set (neighbors (useNeighborMap d) a) \<longleftrightarrow> a \<in> set (neighbors (useNeighborMap d) b)"
  using assms
  unfolding useNeighborMap_def set_neighbors_build_adjacency links_reference_nodes_def list_all_iff
  by auto

theorem useNeighborMap_symmetric_witness:
  "links_reference_nodes [plain_node ''A'', plain_node ''B''] [plain_link ''A'' ''B'']
   \<and> (''B'' \<in> set (neighbors (useNeighborMap
          \<lparr>nodes = [plain_node ''A'', plain_node ''B''], links = [plain_link ''A'' ''B'']\<rparr>) ''A'')
        \<longleftrightarrow>
        ''A'' \<in> set (neighbors (useNeighborMap
          \<lparr>nodes = [plain_node ''A'', plain_node ''B''], links = [plain_link ''A'' ''B'']\<rparr>) ''B''))"
proof -
  have h: "links_reference_nodes [plain_node ''A'', plain_node ''B''] [plain_link ''A'' ''B'']"
    by (simp add: links_reference_nodes_def plain_node_def plain_link_def sourceId_def targetId_def)
  show ?thesis
    using h useNeighborMap_symmetric
      [of "\<lparr>nodes = [plain_node ''A'', plain_node ''B''], links = [plain_link ''A'' ''B'']\<rparr>"
          "''B''" "''A''"]
    by simp
qed

text \<open>
  Claim C5.  In a sequence of links (distinct objects), \<^verbatim>\<open>calculateLinkCurvature\<close> gives
  every self-link a positive curvature; a link with two different ends that is the only
  link between them gets curvature 0; when \<open>k > 1\<close> links join the same two different
  ends, in either direction, the link gets \<open>0.5 * (index - (k - 1) / 2)\<close>, where
  \<open>index\<close> counts the parallel links before it in the sequence, and two different
  links on the same pair never get the same curvature.  Three parallel links between
  \<open>X\<close> and \<open>Y\<close> get \<open>-0.5, 0, 0.5\<close> in link order.
\<close>

theorem calculateLinkCurvature_assignment:
  assumes "distinct (map fst ls)"
    and "a < length ls" and "b < length ls" and "i < length ls" and "j < length ls"
  shows
   "(sourceId (snd (ls ! a)) = targetId (snd (ls ! a)) \<longrightarrow>
       0 < calculateLinkCurvature (ls ! a) ls)
    \<and> (sourceId (snd (ls ! b)) \<noteq> targetId (snd (ls ! b)) \<and>
       length (filter (isParallel (sourceId (snd (ls ! b))) (targetId (snd (ls ! b)))) ls) = 1 \<longrightarrow>
       calculateLinkCurvature (ls ! b) ls = 0)
    \<and> (sourceId (snd (ls ! i)) \<noteq> targetId (snd (ls ! i)) \<and>
       1 < length (filter (isParallel (sourceId (snd (ls ! i))) (targetId (snd (ls ! i)))) ls) \<longrightarrow>
       calculateLinkCurvature (ls ! i) ls =
         0.5 * (real (length (filter (isParallel (sourceId (snd (ls ! i))) (targetId (snd (ls ! i))))
                               (take i ls)))
                - (real (length (filter (isParallel (sourceId (snd (ls ! i))) (targetId (snd (ls ! i))))
                                  ls)) - 1) / 2))
    \<and> (i \<noteq> j \<and> sourceId (snd (ls ! i)) \<noteq> targetId (snd (ls ! i)) \<and>
       isParallel (sourceId (snd (ls ! i))) (targetId (snd (ls ! i))) (ls ! j) \<longrightarrow>
       calculateLinkCurvature (ls ! i) ls \<noteq> calculateLinkCurvature (ls ! j) ls)
    \<and> map snd (enrichLinksWithCurvature
         [(0, plain_link ''X'' ''Y''), (1, plain_link ''X'' ''Y''), (2, plain_link ''X'' ''Y'')])
       = [- 0.5, 0, 0.5]"
proof (intro conjI impI)
  show "0 < calculateLinkCurvature (ls ! a) ls"
    if "sourceId (snd (ls ! a)) = targetId (snd (ls ! a))"
    using that by (simp add: calculateLinkCurvature_def)
  show "calculateLinkCurvature (ls ! b) ls = 0"
    if "sourceId (snd (ls ! b)) \<noteq> targetId (snd (ls ! b)) \<and>
       length (filter (isParallel (sourceId (snd (ls ! b))) (targetId (snd (ls ! b)))) ls) = 1"
    using that by (simp add: calculateLinkCurvature_def Let_def)
  show "calculateLinkCurvature (ls ! i) ls =
         0.5 * (real (length (filter (isParallel (sourceId (snd (ls ! i))) (targetId (snd (ls ! i))))
                               (take i ls)))
                - (real (length (filter (isParallel (sourceId (snd (ls ! i))) (targetId (snd (ls ! i))))
                                  ls)) - 1) / 2)"
    if "sourceId (snd (ls ! i)) \<noteq> targetId (snd (ls ! i)) \<and>
       1 < length (filter (isParallel (sourceId (snd (ls ! i))) (targetId (snd (ls ! i)))) ls)"
    using that calculateLinkCurvature_not_self [OF assms(1) assms(4)] by simp
  show "calculateLinkCurvature (ls ! i) ls \<noteq> calculateLinkCurvature (ls ! j) ls"
    if "i \<noteq> j \<and> sourceId (snd (ls ! i)) \<noteq> targetId (snd (ls ! i)) \<and>
       isParallel (sourceId (snd (ls ! i))) (targetId (snd (ls ! i))) (ls ! j)"
    using that parallel_curvatures_differ [OF assms(1) assms(4) assms(5)] by simp
  show "map snd (enrichLinksWithCurvature
         [(0, plain_link ''X'' ''Y''), (1, plain_link ''X'' ''Y''), (2, plain_link ''X'' ''Y'')])
       = [- 0.5, 0, 0.5]"
    by (simp add: enrichLinksWithCurvature_def calculateLinkCurvature_def isParallel_def
        plain_link_def sourceId_def targetId_def Let_def)
qed

theorem calculateLinkCurvature_assignment_witness:
  "distinct (map fst curvature_example) \<and> length curvature_example = 5
   \<and> 0 < calculateLinkCurvature (curvature_example ! 0) curvature_example
   \<and> calculateLinkCurvature (curvature_example ! 4) curvature_example = 0
   \<and> calculateLinkCurvature (curvature_example ! 1) curvature_example = - 0.5
   \<and> calculateLinkCurvature (curvature_example ! 1) curvature_example
       \<noteq> calculateLinkCurvature (curvature_example ! 2) curvature_example"
proof -
  have h: "distinct (map fst curvature_example)" "0 < length curvature_example"
    "4 < length curvature_example" "1 < length curvature_example" "2 < length curvature_example"
    by (simp_all add: curvature_example_def)
  show ?thesis
    using calculateLinkCurvature_assignment [OF h]
    by (simp add: curvature_example_def isParallel_def plain_link_def sourceId_def targetId_def)
qed

text \<open>
  Claim C7.  For a non-empty graph whose link ends are node ids, \<^verbatim>\<open>applyAutoLayout\<close>
  selects, in this order: the tree layout when every node has at most one incoming link
  and no link is a self-link; the Dagre layout when \<open>2 * |links| / |nodes| < 3\<close> and
  there are more than 10 links; the circular layout when there are fewer than 50 nodes
  and no self-link; otherwise it returns its input unchanged.  The star with centre
  \<open>Z\<close> and five leaves selects the tree layout.
\<close>

theorem applyAutoLayout_priority:
  assumes "nodes d \<noteq> []" and "links_reference_nodes (nodes d) (links d)"
  shows
   "applyAutoLayout L d =
      (if (\<forall>n \<in> set (nodes d). incoming (links d) (node_id n) \<le> 1)
          \<and> (\<forall>l \<in> set (links d). sourceId l \<noteq> targetId l) then
         (''Auto-selected tree layout'', applyTreeLayout L d)
       else if 2 * real (length (links d)) / real (length (nodes d)) < 3
               \<and> 10 < length (links d) then
         (''Auto-selected Dagre layout'', applyDagreLayout L d)
       else if length (nodes d) < 50 \<and> (\<forall>l \<in> set (links d). sourceId l \<noteq> targetId l) then
         (''Auto-selected circular layout'', applyCircularLayout L d)
       else (''Auto-selected force-directed layout (no pre-processing)'', d))
    \<and> applyAutoLayout L star = (''Auto-selected tree layout'', applyTreeLayout L star)"
proof
  have targets: "targetId ` set (links d) \<subseteq> node_id ` set (nodes d)"
    using assms(2) by (auto simp: links_reference_nodes_def list_all_iff)
  have tree: "isTree (nodes d) (links d) \<longleftrightarrow>
      (\<forall>n \<in> set (nodes d). incoming (links d) (node_id n) \<le> 1)"
    unfolding isTree_iff using targets by auto
  have loops: "hasLoops (links d) \<longleftrightarrow> \<not> (\<forall>l \<in> set (links d). sourceId l \<noteq> targetId l)"
    by (auto simp: hasLoops_def list_ex_iff)
  have avg: "avgDegree_below_3 (nodes d) (links d) \<longleftrightarrow>
      2 * real (length (links d)) / real (length (nodes d)) < 3"
    using assms(1) by (simp add: avgDegree_below_3_def mult.commute)
  show "applyAutoLayout L d =
      (if (\<forall>n \<in> set (nodes d). incoming (links d) (node_id n) \<le> 1)
          \<and> (\<forall>l \<in> set (links d). sourceId l \<noteq> targetId l) then
         (''Auto-selected tree layout'', applyTreeLayout L d)
       else if 2 * real (length (links d)) / real (length (nodes d)) < 3
               \<and> 10 < length (links d) then
         (''Auto-selected Dagre layout'', applyDagreLayout L d)
       else if length (nodes d) < 50 \<and> (\<forall>l \<in> set (links d). sourceId l \<noteq> targetId l) then
         (''Auto-selected circular layout'', applyCircularLayout L d)
       else (''Auto-selected force-directed layout (no pre-processing)'', d))"
    unfolding applyAutoLayout_def tree loops avg by simp
  have "isTree (nodes star) (links star)"
    by (simp add: isTree_def parentCount_def star_def plain_node_def plain_link_def targetId_def)
  moreover have "\<not> hasLoops (links star)"
    by (simp add: hasLoops_def star_def plain_link_def sourceId_def targetId_def)
  ultimately show "applyAutoLayout L star = (''Auto-selected tree layout'', applyTreeLayout L star)"
    by (simp add: applyAutoLayout_def)
qed

theorem applyAutoLayout_priority_witness:
  "nodes ring3 \<noteq> [] \<and> links_reference_nodes (nodes ring3) (links ring3)
   \<and> applyAutoLayout \<lparr>applyTreeLayout = (\<lambda>d. d), applyDagreLayout = (\<lambda>d. d),
                        applyCircularLayout = (\<lambda>d. d)\<rparr> ring3
       = (''Auto-selected circular layout'', ring3)"
proof -
  have h: "nodes ring3 \<noteq> []" "links_reference_nodes (nodes ring3) (links ring3)"
    by (simp_all add: ring3_def links_reference_nodes_def plain_node_def plain_link_def
        sourceId_def targetId_def)
  have inc: "incoming (links ring3) (node_id (plain_node ''C'')) = 2"
    by (simp add: incoming_def ring3_def plain_node_def plain_link_def targetId_def)
  have "\<not> (\<forall>n \<in> set (nodes ring3). incoming (links ring3) (node_id n) \<le> 1)"
  proof
    assume "\<forall>n \<in> set (nodes ring3). incoming (links ring3) (node_id n) \<le> 1"
    moreover have "plain_node ''C'' \<in> set (nodes ring3)" by (simp add: ring3_def)
    ultimately have "incoming (links ring3) (node_id (plain_node ''C'')) \<le> 1" by blast
    then show False using inc by simp
  qed
  moreover have "length (links ring3) = 4" "length (nodes ring3) = 3"
    by (simp_all add: ring3_def)
  moreover have "\<forall>l \<in> set (links ring3). sourceId l \<noteq> targetId l"
    by (simp add: ring3_def plain_link_def sourceId_def targetId_def)
  ultimately show ?thesis
    using h applyAutoLayout_priority [OF h, of
        "\<lparr>applyTreeLayout = (\<lambda>d. d), applyDagreLayout = (\<lambda>d. d), applyCircularLayout = (\<lambda>d. d)\<rparr>"]
    by simp
qed

text \<open>
  Claim C10.  On a graph whose link ends are node ids, with a call stack at least as deep
  as the node list is long, \<^verbatim>\<open>connectIsolatedNodes\<close> returns the nodes unchanged and the
  links followed by one new link for every component after the first of the components
  sorted by size: its source is the first member of that component, its target a member
  of the first, largest component.  Every component is the set of nodes joined to its
  first member by a path of links.  Both ends of a new link are node ids, so the result
  keeps referential integrity.
\<close>

theorem connectIsolatedNodes_endpoints_exist:
  assumes "links_reference_nodes ns ls" and "length ns \<le> depth"
  shows "\<exists>visited components new.
      find_components depth (build_adjacency ns ls) ns ([], []) = Inr (visited, components)
      \<and> connectIsolatedNodes depth ns ls = Inr \<lparr>nodes = ns, links = ls @ new\<rparr>
      \<and> list_all2 (\<lambda>c l. c \<noteq> [] \<and> sourceId l = hd c
                          \<and> targetId l \<in> set (hd (sort_components components)))
            (tl (sort_components components)) new
      \<and> (\<forall>c \<in> set components. set c \<subseteq> node_id ` set ns
                                  \<and> set c = {u. (hd c, u) \<in> (linked ls)\<^sup>*}
                                  \<and> length c \<le> length (hd (sort_components components)))
      \<and> (\<forall>l \<in> set new. sourceId l \<in> node_id ` set ns \<and> targetId l \<in> node_id ` set ns)
      \<and> links_reference_nodes ns (ls @ new)"
proof -
  let ?I = "node_id ` set ns"
  from connectIsolatedNodes_result [OF assms]
  obtain visited components new where
    run: "find_components depth (build_adjacency ns ls) ns ([], []) = Inr (visited, components)"
    and inv: "comp_inv (build_adjacency ns ls) ?I (visited, components)"
    and members: "\<forall>c \<in> set components. set c \<subseteq> ?I"
    and res: "connectIsolatedNodes depth ns ls = Inr \<lparr>nodes = ns, links = ls @ new\<rparr>"
    and shape: "list_all2 (\<lambda>c l. c \<noteq> [] \<and>
             (\<exists>t \<in> set (hd (sort_components components)). l = inferred_link (hd c) t))
           (tl (sort_components components)) new" by blast
  let ?sorted = "sort_components components"
  have shape': "list_all2 (\<lambda>c l. c \<noteq> [] \<and> sourceId l = hd c \<and> targetId l \<in> set (hd ?sorted))
                 (tl ?sorted) new"
    by (rule list_all2_mono [OF shape]) auto
  have largest: "length c \<le> length (hd ?sorted)" if c: "c \<in> set components" for c
  proof (cases ?sorted)
    case Nil
    then have "set components = {}" using sort_components_set [of components] by simp
    then show ?thesis using c by simp
  next
    case (Cons main others)
    then show ?thesis using sort_components_largest [OF Cons c] by simp
  qed
  have main_ids: "set (hd ?sorted) \<subseteq> ?I" if "tl ?sorted \<noteq> []"
  proof -
    have "?sorted \<noteq> []" using that by auto
    then have "hd ?sorted \<in> set ?sorted" by (rule hd_in_set)
    then have "hd ?sorted \<in> set components" by (simp only: sort_components_set)
    then show ?thesis using members by blast
  qed
  have ends: "sourceId l \<in> ?I \<and> targetId l \<in> ?I" if l: "l \<in> set new" for l
  proof -
    from list_all2_right_member [OF shape' l] obtain c where c: "c \<in> set (tl ?sorted)"
      and cl: "c \<noteq> [] \<and> sourceId l = hd c \<and> targetId l \<in> set (hd ?sorted)"
      by blast
    have "c \<in> set components"
      using c sort_components_set [of components] by (metis list.sel(2) list.set_sel(2))
    then have "set c \<subseteq> ?I" using members by blast
    moreover have "hd c \<in> set c" using cl by simp
    ultimately have "hd c \<in> ?I" by blast
    moreover have "tl ?sorted \<noteq> []" using c by auto
    ultimately show ?thesis using cl main_ids by auto
  qed
  have exact: "set c = {u. (hd c, u) \<in> (linked ls)\<^sup>*}" if "c \<in> set components" for c
    using find_components_exact [OF assms(1) run that] by simp
  have "links_reference_nodes ns (ls @ new)"
    using assms(1) ends unfolding links_reference_nodes_def list_all_iff by auto
  then show ?thesis using run res shape' members largest ends exact
    by (intro exI [of _ visited] exI [of _ components] exI [of _ new]) simp
qed

theorem connectIsolatedNodes_endpoints_exist_witness:
  "links_reference_nodes (nodes two_pairs) (links two_pairs)
   \<and> length (nodes two_pairs) \<le> 4
   \<and> connectIsolatedNodes 4 (nodes two_pairs) (links two_pairs)
       = Inr \<lparr>nodes = nodes two_pairs, links = links two_pairs @ [inferred_link ''C'' ''A'']\<rparr>
   \<and> links_reference_nodes (nodes two_pairs) (links two_pairs @ [inferred_link ''C'' ''A''])"
proof -
  have h: "links_reference_nodes (nodes two_pairs) (links two_pairs)" "length (nodes two_pairs) \<le> 4"
    by (simp_all add: two_pairs_def links_reference_nodes_def plain_node_def plain_link_def
        sourceId_def targetId_def)
  have e: "connectIsolatedNodes 4 (nodes two_pairs) (links two_pairs)
       = Inr \<lparr>nodes = nodes two_pairs, links = links two_pairs @ [inferred_link ''C'' ''A'']\<rparr>"
    by code_simp
  show ?thesis
    using h e connectIsolatedNodes_endpoints_exist [OF h] by auto
qed

text \<open>
  Claim C4, as the code has it.  Every link that \<^verbatim>\<open>connectIsolatedNodes\<close> adds has
  value 1, type \<^verbatim>\<open>inferred_relation\<close> and the context
  \<^verbatim>\<open>Inferred relationship based on domain similarity\<close>; it has no \<^verbatim>\<open>isInferred\<close>
  property.  The function returns on every graph with referential integrity and enough
  call stack.
\<close>

theorem connectIsolatedNodes_inferred_links:
  "(links_reference_nodes ns ls \<longrightarrow> length ns \<le> depth \<longrightarrow>
      (\<exists>g. connectIsolatedNodes depth ns ls = Inr g))
   \<and> (\<forall>g. connectIsolatedNodes depth ns ls = Inr g \<longrightarrow>
        (\<exists>new. links g = ls @ new
           \<and> (\<forall>l \<in> set new. link_value l = 1 \<and> link_type l = Some ''inferred_relation''
                  \<and> link_context l = Some ''Inferred relationship based on domain similarity''
                  \<and> link_isInferred l = None)))"
proof (intro conjI impI allI)
  assume "links_reference_nodes ns ls" and "length ns \<le> depth"
  from connectIsolatedNodes_result [OF this]
  show "\<exists>g. connectIsolatedNodes depth ns ls = Inr g" by blast
next
  fix g assume g: "connectIsolatedNodes depth ns ls = Inr g"
  let ?P = "\<lambda>l. link_value l = 1 \<and> link_type l = Some ''inferred_relation''
                  \<and> link_context l = Some ''Inferred relationship based on domain similarity''
                  \<and> link_isInferred l = None"
  have new_ok: "\<forall>l \<in> set new. ?P l" if "connect_components ns main others = Inr new" for main others new
  proof -
    have "\<forall>l \<in> set new. \<exists>s t. l = inferred_link s t"
      using list_all2_right_member [OF connect_components_shape [OF that]] by blast
    then show ?thesis by (auto simp: inferred_link_def)
  qed
  obtain visited components where
    run: "find_components depth (build_adjacency ns ls) ns ([], []) = Inr (visited, components)"
    using g by (auto simp: connectIsolatedNodes_def split: sum.splits)
  show "\<exists>new. links g = ls @ new \<and> (\<forall>l \<in> set new. ?P l)"
  proof (cases "length components \<le> 1")
    case True
    then have "g = \<lparr>nodes = ns, links = ls\<rparr>" using g run by (simp add: connectIsolatedNodes_def)
    then show ?thesis by simp
  next
    case False
    show ?thesis
    proof (cases "sort_components components")
      case Nil
      then have "g = \<lparr>nodes = ns, links = ls\<rparr>" using g run False by (simp add: connectIsolatedNodes_def)
      then show ?thesis by simp
    next
      case (Cons main others)
      then obtain new where new: "connect_components ns main others = Inr new"
        and "g = \<lparr>nodes = ns, links = ls @ new\<rparr>"
        using g run False by (auto simp: connectIsolatedNodes_def split: sum.splits)
      then show ?thesis using new_ok [OF new] by simp
    qed
  qed
qed

theorem connectIsolatedNodes_inferred_links_witness:
  "links_reference_nodes [plain_node ''P'', plain_node ''Q''] [] 
   \<and> length [plain_node ''P'', plain_node ''Q''] \<le> 2
   \<and> (\<exists>new. connectIsolatedNodes 2 [plain_node ''P'', plain_node ''Q''] []
                = Inr \<lparr>nodes = [plain_node ''P'', plain_node ''Q''], links = [] @ new\<rparr>
          \<and> new \<noteq> []
          \<and> (\<forall>l \<in> set new. link_value l = 1 \<and> link_type l = Some ''inferred_relation''
                  \<and> link_isInferred l = None))"
proof -
  have e: "connectIsolatedNodes 2 [plain_node ''P'', plain_node ''Q''] []
       = Inr \<lparr>nodes = [plain_node ''P'', plain_node ''Q''], links = [inferred_link ''Q'' ''P'']\<rparr>"
    by code_simp
  have h: "links_reference_nodes [plain_node ''P'', plain_node ''Q''] []"
    by (simp add: links_reference_nodes_def)
  show ?thesis
    using e h connectIsolatedNodes_inferred_links [of "[plain_node ''P'', plain_node ''Q'']" "[]" 2]
    by auto
qed

text \<open>The claim as written asks for \<^verbatim>\<open>isInferred: true\<close>; the link added between two
  isolated nodes does not have it.\<close>

theorem inferred_link_has_no_isInferred_flag:
  "connectIsolatedNodes 2 [plain_node ''A'', plain_node ''B''] []
     = Inr \<lparr>nodes = [plain_node ''A'', plain_node ''B''], links = [inferred_link ''B'' ''A'']\<rparr>
   \<and> link_isInferred (inferred_link ''B'' ''A'') \<noteq> Some True"
proof
  show "connectIsolatedNodes 2 [plain_node ''A'', plain_node ''B''] []
     = Inr \<lparr>nodes = [plain_node ''A'', plain_node ''B''], links = [inferred_link ''B'' ''A'']\<rparr>"
    by code_simp
  show "link_isInferred (inferred_link ''B'' ''A'') \<noteq> Some True"
    by (simp add: inferred_link_def)
qed

text \<open>
  Claim C1.  On a graph whose link ends are node ids, with a call stack at least as deep
  as the node list is long, \<^verbatim>\<open>connectIsolatedNodes\<close> returns a graph with the same nodes
  in which any two nodes are joined by a path of links followed in either direction; its
  own component search finds exactly one component there (none when there are no
  nodes), and applied to its own output it returns that output unchanged.  For the nodes
  \<open>A, B, C, D\<close> with the links \<open>A-B\<close> and \<open>C-D\<close> the result has exactly
  three links.
\<close>

theorem connectIsolatedNodes_connected_idempotent:
  assumes "links_reference_nodes ns ls" and "length ns \<le> depth"
  shows
   "(\<exists>g. connectIsolatedNodes depth ns ls = Inr g \<and> nodes g = ns
        \<and> (\<forall>a \<in> node_id ` set ns. \<forall>b \<in> node_id ` set ns. (a, b) \<in> (linked (links g))\<^sup>*)
        \<and> (\<exists>visited components.
              find_components depth (build_adjacency (nodes g) (links g)) (nodes g) ([], [])
                = Inr (visited, components)
              \<and> length components = (if ns = [] then 0 else 1))
        \<and> connectIsolatedNodes depth (nodes g) (links g) = Inr g)
    \<and> connectIsolatedNodes 4 (nodes two_pairs) (links two_pairs)
        = Inr \<lparr>nodes = nodes two_pairs,
               links = [plain_link ''A'' ''B'', plain_link ''C'' ''D'', inferred_link ''C'' ''A'']\<rparr>"
proof
  from connectIsolatedNodes_connects [OF assms]
  obtain new where res: "connectIsolatedNodes depth ns ls = Inr \<lparr>nodes = ns, links = ls @ new\<rparr>"
    and valid': "links_reference_nodes ns (ls @ new)"
    and conn: "\<forall>a \<in> node_id ` set ns. \<forall>b \<in> node_id ` set ns. (a, b) \<in> (linked (ls @ new))\<^sup>*"
    by blast
  from connected_single_component [OF valid' assms(2) conn]
  obtain visited components where
    run: "find_components depth (build_adjacency ns (ls @ new)) ns ([], []) = Inr (visited, components)"
    and one: "length components = (if ns = [] then 0 else 1)" by blast
  have "length components \<le> 1" using one by simp
  then have again: "connectIsolatedNodes depth ns (ls @ new) = Inr \<lparr>nodes = ns, links = ls @ new\<rparr>"
    using run by (simp add: connectIsolatedNodes_def)
  show "\<exists>g. connectIsolatedNodes depth ns ls = Inr g \<and> nodes g = ns
        \<and> (\<forall>a \<in> node_id ` set ns. \<forall>b \<in> node_id ` set ns. (a, b) \<in> (linked (links g))\<^sup>*)
        \<and> (\<exists>visited components.
              find_components depth (build_adjacency (nodes g) (links g)) (nodes g) ([], [])
                = Inr (visited, components)
              \<and> length components = (if ns = [] then 0 else 1))
        \<and> connectIsolatedNodes depth (nodes g) (links g) = Inr g"
    using res conn run one again
    by (intro exI [of _ "\<lparr>nodes = ns, links = ls @ new\<rparr>"]) simp
  show "connectIsolatedNodes 4 (nodes two_pairs) (links two_pairs)
        = Inr \<lparr>nodes = nodes two_pairs,
               links = [plain_link ''A'' ''B'', plain_link ''C'' ''D'', inferred_link ''C'' ''A'']\<rparr>"
    by code_simp
qed

theorem connectIsolatedNodes_connected_idempotent_witness:
  "links_reference_nodes three_isolated [] \<and> length three_isolated \<le> 3
   \<and> connectIsolatedNodes 3 three_isolated []
       = Inr \<lparr>nodes = three_isolated, links = [inferred_link ''Y'' ''X'', inferred_link ''Z'' ''X'']\<rparr>
   \<and> connectIsolatedNodes 3 three_isolated [inferred_link ''Y'' ''X'', inferred_link ''Z'' ''X'']
       = Inr \<lparr>nodes = three_isolated, links = [inferred_link ''Y'' ''X'', inferred_link ''Z'' ''X'']\<rparr>"
proof -
  have h: "links_reference_nodes three_isolated []" "length three_isolated \<le> 3"
    by (simp_all add: links_reference_nodes_def three_isolated_def)
  have e: "connectIsolatedNodes 3 three_isolated []
       = Inr \<lparr>nodes = three_isolated, links = [inferred_link ''Y'' ''X'', inferred_link ''Z'' ''X'']\<rparr>"
    by code_simp
  from connectIsolatedNodes_connected_idempotent [OF h] e
  have "connectIsolatedNodes 3 three_isolated [inferred_link ''Y'' ''X'', inferred_link ''Z'' ''X'']
       = Inr \<lparr>nodes = three_isolated, links = [inferred_link ''Y'' ''X'', inferred_link ''Z'' ''X'']\<rparr>"
    by auto
  then show ?thesis using h e by simp
qed

text \<open>
  Claim C6.  In pathway mode with \<open>maxDepth = 3\<close>, on a graph whose link ends are node
  ids and with the map of \<^verbatim>\<open>useNeighborMap\<close>, the highlighted nodes are exactly the nodes
  at undirected distance at most 3 from the focus node, and the highlighted links are
  exactly the links with both ends among them.  From the end \<open>A\<close> of the chain
  \<open>A-B-C-D-E\<close> the nodes \<open>A, B, C, D\<close> are highlighted and \<open>E\<close> is not.
\<close>

theorem pathway_highlight_three_hops:
  assumes "links_reference_nodes (nodes d) (links d)"
  shows
   "set (hl_nodes (highlightState d (useNeighborMap d) True 3 (Some node)))
      = {v. \<exists>k \<le> 3. (node_id node, v) \<in> linked (links d) ^^ k}
    \<and> set (hl_links (highlightState d (useNeighborMap d) True 3 (Some node)))
      = {link_name i | i. i < length (links d)
           \<and> sourceId (links d ! i) \<in> {v. \<exists>k \<le> 3. (node_id node, v) \<in> linked (links d) ^^ k}
           \<and> targetId (links d ! i) \<in> {v. \<exists>k \<le> 3. (node_id node, v) \<in> linked (links d) ^^ k}}
    \<and> hl_nodes (highlightState chain (useNeighborMap chain) True 3 (Some (plain_node ''A'')))
      = [''A'', ''B'', ''C'', ''D'']
    \<and> hl_links (highlightState chain (useNeighborMap chain) True 3 (Some (plain_node ''A'')))
      = [''link-0'', ''link-1'', ''link-2'']"
proof (intro conjI)
  show "set (hl_nodes (highlightState d (useNeighborMap d) True 3 (Some node)))
      = {v. \<exists>k \<le> 3. (node_id node, v) \<in> linked (links d) ^^ k}"
    using pathway_highlight_general(1) [OF assms] by (simp add: within_hops_def)
  show "set (hl_links (highlightState d (useNeighborMap d) True 3 (Some node)))
      = {link_name i | i. i < length (links d)
           \<and> sourceId (links d ! i) \<in> {v. \<exists>k \<le> 3. (node_id node, v) \<in> linked (links d) ^^ k}
           \<and> targetId (links d ! i) \<in> {v. \<exists>k \<le> 3. (node_id node, v) \<in> linked (links d) ^^ k}}"
    using pathway_highlight_general(2) [OF assms] by (simp add: within_hops_def)
  have run: "bfs (useNeighborMap chain) 3 ([''A''], [''A''], [(''A'', 0)])
      = ([''A'', ''B'', ''C'', ''D''], [''A'', ''B'', ''C'', ''D''], [])"
    by (simp add: useNeighborMap_def chain_def build_adjacency_def init_adjacency_def add_link_def
        get_add_def plain_node_def plain_link_def sourceId_def targetId_def neighbors_def set_add_def)
  show "hl_nodes (highlightState chain (useNeighborMap chain) True 3 (Some (plain_node ''A'')))
      = [''A'', ''B'', ''C'', ''D'']"
    using run by (simp add: highlightState_def plain_node_def)
  have upt: "[0 ..< 4] = [0, 1, 2, 3::nat]" by (simp add: upt_rec)
  show "hl_links (highlightState chain (useNeighborMap chain) True 3 (Some (plain_node ''A'')))
      = [''link-0'', ''link-1'', ''link-2'']"
    using run
    by (simp add: highlightState_def highlight_links_def link_name_def upt chain_def
        plain_node_def plain_link_def sourceId_def targetId_def set_add_def)
qed

theorem pathway_highlight_three_hops_witness:
  "links_reference_nodes (nodes ring3) (links ring3)
   \<and> {v. \<exists>k \<le> 3. (''B'', v) \<in> linked (links ring3) ^^ k} = {''A'', ''B'', ''C''}"
proof -
  have h: "links_reference_nodes (nodes ring3) (links ring3)"
    by (simp add: ring3_def links_reference_nodes_def plain_node_def plain_link_def
        sourceId_def targetId_def)
  have "bfs (useNeighborMap ring3) 3 ([''B''], [''B''], [(''B'', 0)])
      = ([''B'', ''A'', ''C''], [''B'', ''A'', ''C''], [])"
    by (simp add: useNeighborMap_def ring3_def build_adjacency_def init_adjacency_def add_link_def
        get_add_def plain_node_def plain_link_def sourceId_def targetId_def neighbors_def set_add_def)
  then have e: "hl_nodes (highlightState ring3 (useNeighborMap ring3) True 3 (Some (plain_node ''B'')))
      = [''B'', ''A'', ''C'']"
    by (simp add: highlightState_def plain_node_def)
  have n: "node_id (plain_node ''B'') = ''B''" by (simp add: plain_node_def)
  have "set (hl_nodes (highlightState ring3 (useNeighborMap ring3) True 3 (Some (plain_node ''B''))))
      = {v. \<exists>k \<le> 3. (node_id (plain_node ''B''), v) \<in> linked (links ring3) ^^ k}"
    using pathway_highlight_three_hops [OF h, of "plain_node ''B''"] by (rule conjunct1)
  then have "{v. \<exists>k \<le> 3. (''B'', v) \<in> linked (links ring3) ^^ k} = set [''B'', ''A'', ''C'']"
    unfolding e n by (rule sym)
  also have "\<dots> = {''A'', ''B'', ''C''}" by auto
  finally show ?thesis using h by (intro conjI)
qed

text \<open>
  Claim C9.  \<^verbatim>\<open>analyzeGraph\<close> never divides by zero when no link weight is negative; on a
  graph with no nodes it returns the empty graph; and when all link weights are equal
  \<^verbatim>\<open>calculateLinkWeights\<close> gives every link the value 1 without evaluating the quotient.
\<close>

theorem analyzeGraph_never_divides_by_zero:
  "((\<forall>l \<in> set (links d). 0 \<le> link_value l) \<longrightarrow> analyzeGraph depth d \<noteq> Inl DivisionByZero)
   \<and> (nodes e = [] \<longrightarrow> links_reference_nodes (nodes e) (links e) \<longrightarrow>
        analyzeGraph depth e = Inr \<lparr>nodes = [], links = []\<rparr>)
   \<and> ((\<forall>l \<in> set ls. link_value l = c) \<longrightarrow>
        calculateLinkWeights ls = Inr (map (\<lambda>l. l\<lparr>link_value := 1\<rparr>) ls))"
proof (intro conjI impI)
  assume w: "\<forall>l \<in> set (links d). 0 \<le> link_value l"
  from analyzeGraph_eq [OF w, of depth] obtain \<rho> where
    eq: "analyzeGraph depth d =
      (case detectCommunities depth (nodes d) (links d) of
         Inl e \<Rightarrow> Inl e
       | Inr comm \<Rightarrow>
           Inr \<lparr>nodes = map (\<lambda>n. (with_rank \<rho> n)\<lparr>node_group := community_or_group comm n\<rparr>) (nodes d),
                links = map (rescale (links d)) (links d)\<rparr>)" by blast
  show "analyzeGraph depth d \<noteq> Inl DivisionByZero"
  proof (cases "detectCommunities depth (nodes d) (links d)")
    case (Inl e)
    then have "e = StackExhausted" unfolding detectCommunities_def by (rule assign_all_fault)
    then show ?thesis using eq Inl by simp
  next
    case (Inr comm)
    then show ?thesis using eq by simp
  qed
next
  assume n: "nodes e = []" and v: "links_reference_nodes (nodes e) (links e)"
  have l: "links e = []"
    using v n by (cases "links e") (simp_all add: links_reference_nodes_def)
  have "\<forall>l \<in> set (links e). 0 \<le> link_value l" using l by simp
  from analyzeGraph_eq [OF this, of depth] obtain \<rho> where
    "analyzeGraph depth e =
      (case detectCommunities depth (nodes e) (links e) of
         Inl e \<Rightarrow> Inl e
       | Inr comm \<Rightarrow>
           Inr \<lparr>nodes = map (\<lambda>n. (with_rank \<rho> n)\<lparr>node_group := community_or_group comm n\<rparr>) (nodes e),
                links = map (rescale (links e)) (links e)\<rparr>)" by blast
  then show "analyzeGraph depth e = Inr \<lparr>nodes = [], links = []\<rparr>"
    using n l by (simp add: detectCommunities_def)
next
  assume "\<forall>l \<in> set ls. link_value l = c"
  then show "calculateLinkWeights ls = Inr (map (\<lambda>l. l\<lparr>link_value := 1\<rparr>) ls)"
    by (rule calculateLinkWeights_equal)
qed

theorem analyzeGraph_never_divides_by_zero_witness:
  "map link_value (links two_pairs) = [1, 1]
   \<and> analyzeGraph 4 two_pairs \<noteq> Inl DivisionByZero
   \<and> nodes \<lparr>nodes = [], links = []\<rparr> = []
   \<and> links_reference_nodes [] []
   \<and> analyzeGraph 4 \<lparr>nodes = [], links = []\<rparr> = Inr \<lparr>nodes = [], links = []\<rparr>
   \<and> calculateLinkWeights (links two_pairs)
       = Inr (map (\<lambda>l. l\<lparr>link_value := 1\<rparr>) (links two_pairs))"
proof -
  have v: "map link_value (links two_pairs) = [1, 1]"
    by (simp add: two_pairs_def plain_link_def)
  have h: "\<forall>l \<in> set (links two_pairs). 0 \<le> link_value l"
    "\<forall>l \<in> set (links two_pairs). link_value l = 1"
    "links_reference_nodes [] []"
    by (simp_all add: two_pairs_def plain_link_def links_reference_nodes_def)
  show ?thesis
    using v h analyzeGraph_never_divides_by_zero
      [of two_pairs 4 "\<lparr>nodes = [], links = []\<rparr>" "links two_pairs" 1]
    by simp
qed

text \<open>
  Claim C2, at the input where the code departs from it.  For the nodes \<open>A\<close> and \<open>B\<close>
  of group 5, joined by a link, and the isolated node \<open>C\<close> of group 9, the components
  get the community ids 0 and 1, but \<^verbatim>\<open>analyzeGraph\<close> leaves \<open>A\<close> and \<open>B\<close> in group 5:
  \<^verbatim>\<open>communities[node.id] || node.group\<close> takes the community id 0 for absent.
\<close>

theorem analyzeGraph_community_zero_keeps_group:
  "detectCommunities 3 (nodes grouped) (links grouped) = Inr [(''A'', 0), (''B'', 0), (''C'', 1)]
   \<and> (\<exists>g. analyzeGraph 3 grouped = Inr g
          \<and> map node_id (nodes g) = [''A'', ''B'', ''C'']
          \<and> map node_group (nodes g) = [5, 5, 1])"
proof -
  have comm: "detectCommunities 3 (nodes grouped) (links grouped)
      = Inr [(''A'', 0), (''B'', 0), (''C'', 1)]"
    by (simp add: detectCommunities_def grouped_def build_adjacency_def init_adjacency_def
        add_link_def get_add_def neighbors_def set_add_def plain_node_def plain_link_def
        sourceId_def targetId_def eval_nat_numeral)
  have "\<forall>l \<in> set (links grouped). 0 \<le> link_value l"
    by (simp add: grouped_def plain_link_def)
  from analyzeGraph_eq [OF this, of 3] obtain \<rho> where
    "analyzeGraph 3 grouped =
      (case detectCommunities 3 (nodes grouped) (links grouped) of
         Inl e \<Rightarrow> Inl e
       | Inr comm \<Rightarrow>
           Inr \<lparr>nodes = map (\<lambda>n. (with_rank \<rho> n)\<lparr>node_group := community_or_group comm n\<rparr>)
                          (nodes grouped),
                links = map (rescale (links grouped)) (links grouped)\<rparr>)" by blast
  then have "analyzeGraph 3 grouped =
      Inr \<lparr>nodes = map (\<lambda>n. (with_rank \<rho> n)\<lparr>node_group :=
                            community_or_group [(''A'', 0), (''B'', 0), (''C'', 1)] n\<rparr>) (nodes grouped),
           links = map (rescale (links grouped)) (links grouped)\<rparr>"
    unfolding comm by simp
  moreover have "map node_group (map (\<lambda>n. (with_rank \<rho> n)\<lparr>node_group :=
                            community_or_group [(''A'', 0), (''B'', 0), (''C'', 1)] n\<rparr>) (nodes grouped))
      = [5, 5, 1]"
    by (simp add: grouped_def community_or_group_def plain_node_def)
  moreover have "map node_id (map (\<lambda>n. (with_rank \<rho> n)\<lparr>node_group :=
                            community_or_group [(''A'', 0), (''B'', 0), (''C'', 1)] n\<rparr>) (nodes grouped))
      = [''A'', ''B'', ''C'']"
    by (simp add: grouped_def plain_node_def)
  ultimately show ?thesis using comm by simp
qed




end
